theory Spec2Isabelle
  imports Complex_Main "HOL-Library.Sublist"
begin

section \<open>Paths as dot-joined strings\<close>

text \<open>\<open>Array.prototype.join('.')\<close> on a segment array.\<close>

fun join_dot :: "string list \<Rightarrow> string" where
  "join_dot [] = []"
| "join_dot [s] = s"
| "join_dot (s # t # ss) = s @ ''.'' @ join_dot (t # ss)"

text \<open>\<open>String.prototype.split('.')\<close>: the empty string splits into one empty segment.\<close>

fun split_dot :: "string \<Rightarrow> string list" where
  "split_dot [] = [[]]"
| "split_dot (c # cs) =
     (if c = CHR ''.'' then [] # split_dot cs
      else (case split_dot cs of
              [] \<Rightarrow> [[c]]
            | s # ss \<Rightarrow> (c # s) # ss))"

text \<open>\<open>s.startsWith(p)\<close>.\<close>

definition startsWith :: "string \<Rightarrow> string \<Rightarrow> bool" where
  "startsWith s p = (take (length p) s = p)"

section \<open>The string-to-number conversion behind \<open>!isNaN(Number(s))\<close>\<close>

text \<open>
  \<open>Number(s)\<close> is not \<open>NaN\<close> exactly when \<open>s\<close>, with white space stripped at both
  ends, is empty, a decimal literal with optional sign (digits with an optional
  fraction and exponent, or \<open>Infinity\<close>), or an unsigned \<open>0x\<close>, \<open>0o\<close> or \<open>0b\<close>
  integer literal. A character of a string is a UTF-16 code unit below 256 (the
  type has no others), so the length of a string is its JavaScript \<open>length\<close>.
  The white space that \<open>Number\<close> strips is \<open>WhiteSpace\<close> and \<open>LineTerminator\<close>: among
  these code units, tab, line feed, vertical tab, form feed, carriage return,
  space and the no-break space U+00A0 (the others, such as U+FEFF and U+2028, lie
  above 255; U+0085 is not white space).
\<close>

definition js_space :: "char \<Rightarrow> bool" where
  "js_space c =
     (c \<in> set [CHR 0x09, CHR 0x0A, CHR 0x0B, CHR 0x0C, CHR 0x0D, CHR 0x20, CHR 0xA0])"

definition dec_digit :: "char \<Rightarrow> bool" where
  "dec_digit c = (c \<in> set ''0123456789'')"

definition hex_digit :: "char \<Rightarrow> bool" where
  "hex_digit c = (c \<in> set ''0123456789abcdefABCDEF'')"

definition oct_digit :: "char \<Rightarrow> bool" where
  "oct_digit c = (c \<in> set ''01234567'')"

definition bin_digit :: "char \<Rightarrow> bool" where
  "bin_digit c = (c \<in> set ''01'')"

definition js_trim :: "string \<Rightarrow> string" where
  "js_trim s = rev (dropWhile js_space (rev (dropWhile js_space s)))"

definition all_digits :: "(char \<Rightarrow> bool) \<Rightarrow> string \<Rightarrow> bool" where
  "all_digits d s = (s \<noteq> [] \<and> list_all d s)"

definition exponent_part :: "string \<Rightarrow> bool" where
  "exponent_part s =
     (case s of
        [] \<Rightarrow> True
      | c # t \<Rightarrow>
          (c = CHR ''e'' \<or> c = CHR ''E'') \<and>
          (case t of
             [] \<Rightarrow> False
           | d # u \<Rightarrow> if d = CHR ''+'' \<or> d = CHR ''-'' then all_digits dec_digit u
                      else all_digits dec_digit t))"

definition unsigned_decimal :: "string \<Rightarrow> bool" where
  "unsigned_decimal s =
     (if s = ''Infinity'' then True
      else
        (let ip = takeWhile dec_digit s;
             r1 = dropWhile dec_digit s
         in case r1 of
              [] \<Rightarrow> ip \<noteq> []
            | c # t \<Rightarrow>
                if c = CHR ''.''
                then (ip \<noteq> [] \<or> takeWhile dec_digit t \<noteq> []) \<and>
                     exponent_part (dropWhile dec_digit t)
                else ip \<noteq> [] \<and> exponent_part r1))"

definition radix_literal :: "string \<Rightarrow> bool" where
  "radix_literal s =
     (case s of
        z # x # t \<Rightarrow>
          z = CHR ''0'' \<and>
          ((x = CHR ''x'' \<or> x = CHR ''X'') \<and> all_digits hex_digit t \<or>
           (x = CHR ''o'' \<or> x = CHR ''O'') \<and> all_digits oct_digit t \<or>
           (x = CHR ''b'' \<or> x = CHR ''B'') \<and> all_digits bin_digit t)
      | _ \<Rightarrow> False)"

definition number_not_NaN :: "string \<Rightarrow> bool" where
  "number_not_NaN s =
     (let t = js_trim s
      in case t of
           [] \<Rightarrow> True
         | c # u \<Rightarrow>
             radix_literal t \<or>
             (if c = CHR ''+'' \<or> c = CHR ''-'' then unsigned_decimal u
              else unsigned_decimal t))"

section \<open>The path registry (listeners module)\<close>

text \<open>
  A subscriber is a zero-argument callback; the registry compares callbacks by
  identity, so a callback is its identity here. What a callback does when it is
  called is its body: a sequence of effects on this module. It can subscribe a
  callback, call an unsubscribe function (the closure \<open>subscribe\<close> returned for a
  path and a callback), call \<open>clearAllListeners\<close>, cause a call of
  \<open>notifyListeners\<close> (a write to the store through a wrapper does), and throw.
  Effects on anything else leave the fan-out as it is and are not listed.
\<close>

type_synonym listener = nat

datatype effect = Subscribe string listener | Unsubscribe string listener | ClearAll
  | Notify "string list" | Throw

text \<open>
  A \<open>Set\<close> and a \<open>Map\<close> hold their entries in a list, in insertion order
  (\<open>SetData\<close> and \<open>MapData\<close> of ECMAScript): \<open>add\<close> and \<open>set\<close> append a new entry,
  \<open>delete\<close> empties the entry where it stands, and \<open>forEach\<close> walks the list by
  index, reading its length anew at every step. So a callback that is deleted
  before it is reached is not called, and one that is added during the walk is.
  \<open>live\<close> gives the entries that are not empty.
\<close>

fun live :: "'a option list \<Rightarrow> 'a list" where
  "live [] = []"
| "live (None # es) = live es"
| "live (Some x # es) = x # live es"

definition Set_add :: "'a \<Rightarrow> 'a option list \<Rightarrow> 'a option list" where
  "Set_add x es = (if x \<in> set (live es) then es else es @ [Some x])"

definition Set_delete :: "'a \<Rightarrow> 'a option list \<Rightarrow> 'a option list" where
  "Set_delete x es = map (\<lambda>e. if e = Some x then None else e) es"

definition Set_size :: "'a option list \<Rightarrow> nat" where
  "Set_size es = length (live es)"

definition Map_get :: "('k \<times> 'v) option list \<Rightarrow> 'k \<Rightarrow> 'v option" where
  "Map_get m k = map_of (live m) k"

definition Map_delete :: "'k \<Rightarrow> ('k \<times> 'v) option list \<Rightarrow> ('k \<times> 'v) option list" where
  "Map_delete k m = map (\<lambda>e. case e of None \<Rightarrow> None | Some (k', v) \<Rightarrow> if k' = k then None else e) m"


definition set_add :: "'a \<Rightarrow> 'a list \<Rightarrow> 'a list" where
  "set_add x xs = (if x \<in> set xs then xs else xs @ [x])"

record monitoringConfig =
  mon_enabled :: bool
  logSubscriptions :: bool
  autoLeakDetection :: bool

record monitoringStats =
  totalSubscriptionsCreated :: int
  totalSubscriptionsRemoved :: int
  activeSubscriptions :: int
  pathSubscriptionCounts :: "string \<rightharpoonup> int"
  renderCyclesSinceCheck :: int

text \<open>
  Of \<open>monitoringStats\<close>, the counters of subscriptions and of render cycles; the
  timings, which \<open>notifyListeners\<close> updates when timing logs are on, are left out.

  \<open>pathListeners\<close> is a \<open>Map<string, Set<Listener>>\<close>. The \<open>Set\<close> objects are kept
  in a store and the map holds their addresses, because \<open>forEach\<close> holds on to
  the \<open>Set\<close> it walks while a callback may remove that \<open>Set\<close> from the map and
  subscribe again, which makes a new one.
\<close>

record listeners_state =
  sets :: "listener option list list"
  pathListeners :: "(string \<times> nat) option list"
  stats :: monitoringStats

record environment =
  hasWindow :: bool
  monitoring :: monitoringConfig

definition count_of :: "(string \<rightharpoonup> int) \<Rightarrow> string \<Rightarrow> int" where
  "count_of m k = (case m k of None \<Rightarrow> 0 | Some n \<Rightarrow> n)"

definition logSubscriptionAdded :: "monitoringConfig \<Rightarrow> string \<Rightarrow> monitoringStats \<Rightarrow> monitoringStats" where
  "logSubscriptionAdded cfg path ms =
     (if \<not> mon_enabled cfg \<or> \<not> logSubscriptions cfg then ms
      else ms\<lparr> totalSubscriptionsCreated := totalSubscriptionsCreated ms + 1,
               activeSubscriptions := activeSubscriptions ms + 1,
               pathSubscriptionCounts :=
                 (pathSubscriptionCounts ms)(path \<mapsto> count_of (pathSubscriptionCounts ms) path + 1) \<rparr>)"

definition logSubscriptionRemoved :: "monitoringConfig \<Rightarrow> string \<Rightarrow> monitoringStats \<Rightarrow> monitoringStats" where
  "logSubscriptionRemoved cfg path ms =
     (if \<not> mon_enabled cfg \<or> \<not> logSubscriptions cfg then ms
      else ms\<lparr> totalSubscriptionsRemoved := totalSubscriptionsRemoved ms + 1,
               activeSubscriptions := activeSubscriptions ms - 1,
               pathSubscriptionCounts :=
                 (pathSubscriptionCounts ms)(path \<mapsto> count_of (pathSubscriptionCounts ms) path - 1) \<rparr>)"

text \<open>\<open>pathListeners.get(path)?.op(listener)\<close>, for \<open>op\<close> one of \<open>add\<close> and \<open>delete\<close>.\<close>

definition at_path :: "string \<Rightarrow> (listener option list \<Rightarrow> listener option list) \<Rightarrow>
    listeners_state \<Rightarrow> listeners_state" where
  "at_path path op st =
     (case Map_get (pathListeners st) path of
        None \<Rightarrow> st
      | Some a \<Rightarrow> st\<lparr> sets := (sets st)[a := op (sets st ! a)] \<rparr>)"

definition subscribe :: "monitoringConfig \<Rightarrow> string \<Rightarrow> listener \<Rightarrow> listeners_state \<Rightarrow> listeners_state" where
  "subscribe cfg path l st =
     (let st1 = (if Map_get (pathListeners st) path = None
                 then st\<lparr> sets := sets st @ [[]],
                          pathListeners := pathListeners st @ [Some (path, length (sets st))] \<rparr>
                 else st);
          st2 = at_path path (Set_add l) st1
      in st2\<lparr> stats := logSubscriptionAdded cfg path (stats st2) \<rparr>)"

text \<open>
  The closure \<open>subscribe\<close> returns, over the \<open>path\<close> and \<open>listener\<close> it captured.
\<close>

definition unsubscribe :: "monitoringConfig \<Rightarrow> string \<Rightarrow> listener \<Rightarrow> listeners_state \<Rightarrow> listeners_state" where
  "unsubscribe cfg path l st =
     (let st1 = at_path path (Set_delete l) st;
          st2 = st1\<lparr> stats := logSubscriptionRemoved cfg path (stats st1) \<rparr>
      in case Map_get (pathListeners st2) path of
           None \<Rightarrow> st2
         | Some a \<Rightarrow>
             if Set_size (sets st2 ! a) = 0
             then st2\<lparr> pathListeners := Map_delete path (pathListeners st2) \<rparr>
             else st2)"

text \<open>
  \<open>clearAllListeners\<close>: \<open>pathListeners.clear()\<close> empties every entry of the map
  where it stands; the \<open>Set\<close> objects are not touched.
\<close>

definition clearAllListeners :: "listeners_state \<Rightarrow> listeners_state" where
  "clearAllListeners st = st\<lparr> pathListeners := map (\<lambda>e. None) (pathListeners st) \<rparr>"

text \<open>
  One fan-out, as it runs: \<open>alive\<close> is false once a callback has thrown and the
  exception is propagating (nothing catches it inside \<open>notifyListeners\<close>, so every
  later call is skipped); \<open>invoked\<close> lists the callbacks called so far, in order.
  A fan-out runs on the state of the module together with this record.
\<close>

datatype run = Run (alive: bool) (invoked: "listener list")

type_synonym world = "listeners_state \<times> run"

text \<open>
  The effects of a callback's body in turn; \<open>notify\<close> is \<open>notifyListeners\<close> as the
  body can call it. An exception ends the body. \<open>None\<close> is a computation that
  has not come to an end within the steps it was given.
\<close>

fun run_body :: "(string list \<Rightarrow> world \<Rightarrow> world option) \<Rightarrow> monitoringConfig \<Rightarrow> effect list \<Rightarrow>
    world \<Rightarrow> world option" where
  "run_body notify cfg [] w = Some w"
| "run_body notify cfg (Subscribe p l # es) w =
     run_body notify cfg es (subscribe cfg p l (fst w), snd w)"
| "run_body notify cfg (Unsubscribe p l # es) w =
     run_body notify cfg es (unsubscribe cfg p l (fst w), snd w)"
| "run_body notify cfg (ClearAll # es) w =
     run_body notify cfg es (clearAllListeners (fst w), snd w)"
| "run_body notify cfg (Notify path # es) w =
     (case notify path w of
        None \<Rightarrow> None
      | Some w' \<Rightarrow> if alive (snd w') then run_body notify cfg es w' else Some w')"
| "run_body notify cfg (Throw # es) w = Some (fst w, Run False (invoked (snd w)))"

text \<open>\<open>listener()\<close>: the call is recorded and the body runs.\<close>

definition call :: "(string list \<Rightarrow> world \<Rightarrow> world option) \<Rightarrow> monitoringConfig \<Rightarrow>
    (listener \<Rightarrow> effect list) \<Rightarrow> listener \<Rightarrow> world \<Rightarrow> world option" where
  "call notify cfg body l w =
     run_body notify cfg (body l) (fst w, Run True (invoked (snd w) @ [l]))"

text \<open>
  \<open>listeners.forEach(listener => listener())\<close> on the \<open>Set\<close> at address \<open>a\<close>, from
  index \<open>i\<close> on. Every step of the walk uses up one of the \<open>fuel\<close> steps given;
  the walk of a \<open>Set\<close> that callbacks keep adding to has no end.
\<close>

fun forEach_call :: "nat \<Rightarrow> (listener \<Rightarrow> world \<Rightarrow> world option) \<Rightarrow> nat \<Rightarrow> nat \<Rightarrow> world \<Rightarrow> world option" where
  "forEach_call 0 f a i w =
     (if \<not> alive (snd w) \<or> length (sets (fst w) ! a) \<le> i then Some w else None)"
| "forEach_call (Suc fuel) f a i w =
     (if \<not> alive (snd w) \<or> length (sets (fst w) ! a) \<le> i then Some w
      else
        (case sets (fst w) ! a ! i of
           None \<Rightarrow> forEach_call fuel f a (Suc i) w
         | Some l \<Rightarrow>
             (case f l w of
                None \<Rightarrow> None
              | Some w' \<Rightarrow> forEach_call fuel f a (Suc i) w')))"

text \<open>\<open>if (pathListeners.has(key)) pathListeners.get(key)?.forEach(...)\<close>.\<close>

definition notify_key :: "nat \<Rightarrow> (listener \<Rightarrow> world \<Rightarrow> world option) \<Rightarrow> string \<Rightarrow> world \<Rightarrow> world option" where
  "notify_key fuel f key w =
     (if \<not> alive (snd w) then Some w
      else
        (case Map_get (pathListeners (fst w)) key of
           None \<Rightarrow> Some w
         | Some a \<Rightarrow> forEach_call fuel f a 0 w))"

text \<open>The loop \<open>for (let i = path.length - 1; i >= 0; i--)\<close>; \<open>n\<close> is \<open>i + 1\<close>.\<close>

fun notify_parents :: "nat \<Rightarrow> (listener \<Rightarrow> world \<Rightarrow> world option) \<Rightarrow> string list \<Rightarrow> nat \<Rightarrow>
    world \<Rightarrow> world option" where
  "notify_parents fuel f path 0 w = Some w"
| "notify_parents fuel f path (Suc i) w =
     (case notify_key fuel f (join_dot (take i path)) w of
        None \<Rightarrow> None
      | Some w' \<Rightarrow> notify_parents fuel f path i w')"

text \<open>
  \<open>pathListeners.forEach\<close> over the entries of the map from index \<open>j\<close> on, with
  the \<open>startsWith(prefix)\<close> test.
\<close>

fun notify_children :: "nat \<Rightarrow> (listener \<Rightarrow> world \<Rightarrow> world option) \<Rightarrow> string \<Rightarrow> nat \<Rightarrow>
    world \<Rightarrow> world option" where
  "notify_children 0 f pfx j w =
     (if \<not> alive (snd w) \<or> length (pathListeners (fst w)) \<le> j then Some w else None)"
| "notify_children (Suc fuel) f pfx j w =
     (if \<not> alive (snd w) \<or> length (pathListeners (fst w)) \<le> j then Some w
      else
        (case pathListeners (fst w) ! j of
           None \<Rightarrow> notify_children fuel f pfx (Suc j) w
         | Some (key, a) \<Rightarrow>
             if startsWith key pfx
             then (case forEach_call fuel f a 0 w of
                     None \<Rightarrow> None
                   | Some w' \<Rightarrow> notify_children fuel f pfx (Suc j) w')
             else notify_children fuel f pfx (Suc j) w))"

text \<open>The count of render cycles that \<open>notifyListeners\<close> keeps for leak detection.\<close>

definition count_render_cycle :: "environment \<Rightarrow> listeners_state \<Rightarrow> listeners_state" where
  "count_render_cycle env st =
     (if mon_enabled (monitoring env) \<and> autoLeakDetection (monitoring env)
      then st\<lparr> stats := (stats st)\<lparr> renderCyclesSinceCheck :=
                  renderCyclesSinceCheck (stats st) + 1 \<rparr> \<rparr>
      else st)"

text \<open>
  The body of \<open>notifyListeners\<close>, with \<open>f\<close> for the call of a callback. An
  exception of a callback leaves every later statement out.
\<close>

definition notify_groups :: "nat \<Rightarrow> (listener \<Rightarrow> world \<Rightarrow> world option) \<Rightarrow> environment \<Rightarrow>
    string list \<Rightarrow> world \<Rightarrow> world option" where
  "notify_groups fuel f env path w =
     (if \<not> hasWindow env then Some w
      else
        (let pathKey = join_dot path;
             lastSegment = (if path \<noteq> [] then last path else [])
         in case notify_key fuel f pathKey (count_render_cycle env (fst w), snd w) of
              None \<Rightarrow> None
            | Some w1 \<Rightarrow>
                (case (if lastSegment \<noteq> [] \<and> number_not_NaN lastSegment
                       then notify_key fuel f (join_dot (butlast path)) w1
                       else Some w1) of
                   None \<Rightarrow> None
                 | Some w2 \<Rightarrow>
                     (case notify_parents fuel f path (length path) w2 of
                        None \<Rightarrow> None
                      | Some w3 \<Rightarrow> notify_children fuel f (pathKey @ ''.'') 0 w3))))"

text \<open>
  \<open>notifyListeners\<close> as a callback's body calls it, in a fan-out that is running:
  the callbacks it calls can call it again, and \<open>fuel\<close> bounds that depth too.
\<close>

primrec notify_from :: "nat \<Rightarrow> environment \<Rightarrow> (listener \<Rightarrow> effect list) \<Rightarrow> string list \<Rightarrow>
    world \<Rightarrow> world option" where
  "notify_from 0 env body path w = notify_groups 0 (\<lambda>l w'. None) env path w"
| "notify_from (Suc fuel) env body path w =
     notify_groups (Suc fuel) (call (notify_from fuel env body) (monitoring env) body) env path w"

text \<open>
  \<open>notifyListeners(path)\<close>, called from outside any fan-out: the state afterwards
  and the record of the fan-out.
\<close>

definition notifyListeners :: "nat \<Rightarrow> environment \<Rightarrow> (listener \<Rightarrow> effect list) \<Rightarrow> string list \<Rightarrow>
    listeners_state \<Rightarrow> world option" where
  "notifyListeners fuel env body path st = notify_from fuel env body path (st, Run True [])"

text \<open>
  The registry as a list: every key of the map with the callbacks subscribed on
  it, in insertion order.
\<close>

type_synonym registry = "(string \<times> listener list) list"

definition registry :: "listeners_state \<Rightarrow> registry" where
  "registry st = map (\<lambda>e. (fst e, live (sets st ! snd e))) (live (pathListeners st))"

text \<open>
  The fan-out of one notification written as a list: the callbacks due to be
  called, group after group.
\<close>

definition listeners_on :: "registry \<Rightarrow> string \<Rightarrow> listener list" where
  "listeners_on reg key = (case map_of reg key of None \<Rightarrow> [] | Some ls \<Rightarrow> ls)"

definition exact_group :: "registry \<Rightarrow> string list \<Rightarrow> listener list" where
  "exact_group reg path = listeners_on reg (join_dot path)"

definition array_parent_group :: "registry \<Rightarrow> string list \<Rightarrow> listener list" where
  "array_parent_group reg path =
     (if path \<noteq> [] \<and> last path \<noteq> [] \<and> number_not_NaN (last path)
      then listeners_on reg (join_dot (butlast path)) else [])"

definition ancestor_groups :: "registry \<Rightarrow> string list \<Rightarrow> listener list" where
  "ancestor_groups reg path =
     concat (map (\<lambda>i. listeners_on reg (join_dot (take i path))) (rev [0..<length path]))"

definition descendant_key :: "string list \<Rightarrow> string \<Rightarrow> bool" where
  "descendant_key path key = (\<exists>segs. segs \<noteq> [] \<and> key = join_dot (path @ segs))"

definition ancestor_key :: "string list \<Rightarrow> string \<Rightarrow> bool" where
  "ancestor_key path key = (\<exists>i<length path. key = join_dot (take i path))"

definition fan_out :: "registry \<Rightarrow> string list \<Rightarrow> listener list" where
  "fan_out reg path =
     exact_group reg path @ array_parent_group reg path @ ancestor_groups reg path @
     concat (map snd (filter (\<lambda>e. startsWith (fst e) (join_dot path @ ''.'')) reg))"

definition descendant_group :: "registry \<Rightarrow> string list \<Rightarrow> listener list" where
  "descendant_group reg path = concat (map snd (filter (\<lambda>e. descendant_key path (fst e)) reg))"

text \<open>
  A callback is quiet when its body is empty: it returns and has no effect on
  this module (it changes no subscription and causes no notification). A body
  throws first when it throws before it has caused a notification; what it has
  done to the registry by then is \<open>registry_effects\<close>.
\<close>

fun throws_first :: "effect list \<Rightarrow> bool" where
  "throws_first [] = False"
| "throws_first (Throw # es) = True"
| "throws_first (Notify path # es) = False"
| "throws_first (Subscribe p l # es) = throws_first es"
| "throws_first (Unsubscribe p l # es) = throws_first es"
| "throws_first (ClearAll # es) = throws_first es"

fun registry_effects :: "monitoringConfig \<Rightarrow> effect list \<Rightarrow> listeners_state \<Rightarrow> listeners_state" where
  "registry_effects cfg [] st = st"
| "registry_effects cfg (Subscribe p l # es) st = registry_effects cfg es (subscribe cfg p l st)"
| "registry_effects cfg (Unsubscribe p l # es) st =
     registry_effects cfg es (unsubscribe cfg p l st)"
| "registry_effects cfg (ClearAll # es) st = registry_effects cfg es (clearAllListeners st)"
| "registry_effects cfg (Notify path # es) st = st"
| "registry_effects cfg (Throw # es) st = st"

text \<open>
  \<open>to_first_throw\<close> holds of a list of callbacks that are quiet up to the first
  one that is not, whose body throws first; \<open>record_call\<close> is what the call of
  such a callback adds to the record of the fan-out, and \<open>step_call\<close> what it
  does to the state and the record.
\<close>

fun to_first_throw :: "(listener \<Rightarrow> effect list) \<Rightarrow> listener list \<Rightarrow> bool" where
  "to_first_throw body [] = True"
| "to_first_throw body (l # ls) =
     (if body l = [] then to_first_throw body ls else throws_first (body l))"

definition record_call :: "(listener \<Rightarrow> effect list) \<Rightarrow> listener \<Rightarrow> run \<Rightarrow> run" where
  "record_call body l r = (if alive r then Run (body l = []) (invoked r @ [l]) else r)"

definition step_call :: "monitoringConfig \<Rightarrow> (listener \<Rightarrow> effect list) \<Rightarrow> listener \<Rightarrow> world \<Rightarrow> world" where
  "step_call cfg body l w =
     (if alive (snd w) then (registry_effects cfg (body l) (fst w), record_call body l (snd w))
      else w)"

text \<open>
  The steps that are enough for a fan-out of callbacks that leave the registry
  alone: one for every entry of the map and of the sets it holds.
\<close>

definition registry_size :: "listeners_state \<Rightarrow> nat" where
  "registry_size st =
     length (pathListeners st) +
     sum_list (map (\<lambda>e. length (sets st ! snd e)) (live (pathListeners st)))"

text \<open>
  What holds of the registry in every state the module reaches: the keys of the
  map are distinct, no \<open>Set\<close> is held under two keys, and every address is that
  of a \<open>Set\<close> that has been made.
\<close>

definition registry_ok :: "listeners_state \<Rightarrow> bool" where
  "registry_ok st =
     (distinct (map fst (live (pathListeners st))) \<and>
      distinct (map snd (live (pathListeners st))) \<and>
      (\<forall>e\<in>set (live (pathListeners st)). snd e < length (sets st)))"

text \<open>Concrete environments, callbacks and registries for the examples.\<close>

definition default_monitoring :: monitoringConfig where
  "default_monitoring = \<lparr> mon_enabled = True, logSubscriptions = False, autoLeakDetection = False \<rparr>"

definition logging_monitoring :: monitoringConfig where
  "logging_monitoring = \<lparr> mon_enabled = True, logSubscriptions = True, autoLeakDetection = False \<rparr>"

definition browser :: environment where
  "browser = \<lparr> hasWindow = True, monitoring = default_monitoring \<rparr>"

definition server :: environment where
  "server = \<lparr> hasWindow = False, monitoring = default_monitoring \<rparr>"

definition no_stats :: monitoringStats where
  "no_stats = \<lparr> totalSubscriptionsCreated = 0, totalSubscriptionsRemoved = 0,
      activeSubscriptions = 0, pathSubscriptionCounts = Map.empty, renderCyclesSinceCheck = 0 \<rparr>"

definition no_listeners :: listeners_state where
  "no_listeners = \<lparr> sets = [], pathListeners = [], stats = no_stats \<rparr>"

text \<open>Callbacks that all return at once.\<close>

definition quiet :: "listener \<Rightarrow> effect list" where
  "quiet l = []"

text \<open>Callback \<open>1\<close> throws; the others return at once.\<close>

definition first_throws :: "listener \<Rightarrow> effect list" where
  "first_throws l = (if l = 1 then [Throw] else [])"

text \<open>
  Callback \<open>1\<close> calls the unsubscribe function of callback \<open>2\<close> on \<open>a\<close> and then
  throws; the others return at once.
\<close>

definition unsubscribes_and_throws :: "listener \<Rightarrow> effect list" where
  "unsubscribes_and_throws l = (if l = 1 then [Unsubscribe ''a'' 2, Throw] else [])"

text \<open>Callback \<open>1\<close> calls the unsubscribe function of callback \<open>2\<close> on \<open>a\<close>.\<close>

definition first_unsubscribes_second :: "listener \<Rightarrow> effect list" where
  "first_unsubscribes_second l = (if l = 1 then [Unsubscribe ''a'' 2] else [])"

definition items_state :: listeners_state where
  "items_state =
     subscribe default_monitoring ''other'' 5
       (subscribe default_monitoring ''items.2.done'' 4
         (subscribe default_monitoring [] 3
           (subscribe default_monitoring ''items'' 2
             (subscribe default_monitoring ''items.2'' 1 no_listeners))))"

definition pair_state :: listeners_state where
  "pair_state =
     subscribe default_monitoring ''a'' 2 (subscribe default_monitoring ''a'' 1 no_listeners)"

definition nested_state :: listeners_state where
  "nested_state =
     subscribe default_monitoring ''a'' 2
       (subscribe default_monitoring ''a'' 1
         (subscribe default_monitoring ''a.b'' 3 no_listeners))"

definition shared_path_state :: listeners_state where
  "shared_path_state =
     subscribe logging_monitoring ''a'' 2 (subscribe logging_monitoring ''a'' 1 no_listeners)"

section \<open>Persistence: which paths are persisted, and under which root\<close>

text \<open>
  \<open>persistenceConfig\<close>; \<open>paths\<close> may be \<open>undefined\<close>.
\<close>

record persistenceConfig =
  pers_enabled :: bool
  paths :: "string list option"
  blacklist :: "string list"
  batchDelay :: nat

text \<open>
  What a flush does, in order: it starts, calls \<open>persistSlice\<close> on a root, ends.
\<close>

datatype event = FlushStart | PersistSlice string | FlushEnd

text \<open>
  The module state of the persistence layer: \<open>persistenceBatch\<close>, the two
  hydration flags, and the timers of the host (\<open>setTimeout\<close> hands out fresh
  identifiers; \<open>armed\<close> holds the timers that are set and have neither fired nor
  been cleared).
\<close>

record persist_state =
  roots :: "string list"
  timeoutId :: "nat option"
  isPersisting :: bool
  isHydrating :: bool
  hasHydrated :: bool
  next_timer :: nat
  armed :: "nat list"
  events :: "event list"

text \<open>\<open>changePath.split('.')[0]\<close>; the split of a string is never empty.\<close>

definition first_segment :: "string \<Rightarrow> string" where
  "first_segment p = (case split_dot p of [] \<Rightarrow> [] | s # _ \<Rightarrow> s)"

definition getPersistenceRoot :: "persistenceConfig \<Rightarrow> string \<Rightarrow> string" where
  "getPersistenceRoot cfg changePath =
     (case paths cfg of
        None \<Rightarrow> first_segment changePath
      | Some configuredPaths \<Rightarrow>
          (case find (\<lambda>configPath. changePath = configPath \<or>
                                     startsWith changePath (configPath @ ''.''))
                     configuredPaths of
             Some configPath \<Rightarrow> configPath
           | None \<Rightarrow> first_segment changePath))"

text \<open>
  The loop \<open>for (let i = 1; i <= segments.length; i++)\<close> with its early
  \<open>return false\<close>, as the test whether some iteration returns.
\<close>

definition blacklisted :: "persistenceConfig \<Rightarrow> string \<Rightarrow> bool" where
  "blacklisted cfg path =
     (let segments = split_dot path
      in list_ex (\<lambda>i. list_ex (\<lambda>b. b = join_dot (take i segments)) (blacklist cfg))
           [1..<Suc (length segments)])"

definition shouldPersistPath :: "persistenceConfig \<Rightarrow> string \<Rightarrow> bool" where
  "shouldPersistPath cfg path =
     (if \<not> pers_enabled cfg then False
      else if blacklisted cfg path then False
      else (case paths cfg of
              None \<Rightarrow> True
            | Some ps \<Rightarrow>
                if ps = [] then True
                else list_ex (\<lambda>persistedPath.
                        path = persistedPath \<or>
                        startsWith path (persistedPath @ ''.'') \<or>
                        startsWith persistedPath (path @ ''.'')) ps))"

text \<open>\<open>clearTimeout\<close> of the pending timer, if any, then \<open>setTimeout\<close>.\<close>

definition schedulePersistenceBatch :: "persist_state \<Rightarrow> persist_state" where
  "schedulePersistenceBatch st =
     (let st1 = (case timeoutId st of
                   None \<Rightarrow> st
                 | Some t \<Rightarrow> st\<lparr> armed := removeAll t (armed st) \<rparr>);
          t = next_timer st1
      in st1\<lparr> timeoutId := Some t, armed := armed st1 @ [t], next_timer := Suc t \<rparr>)"

definition addToPersistenceBatch :: "persistenceConfig \<Rightarrow> string list \<Rightarrow> persist_state \<Rightarrow> persist_state" where
  "addToPersistenceBatch cfg path st =
     (if \<not> pers_enabled cfg \<or> isHydrating st \<or> \<not> hasHydrated st then st
      else
        (let pathKey = join_dot path
         in if shouldPersistPath cfg pathKey
            then schedulePersistenceBatch
                   (st\<lparr> roots := set_add (getPersistenceRoot cfg pathKey) (roots st) \<rparr>)
            else st))"

text \<open>
  The relations between path strings that the configuration lists speak of:
  \<open>a\<close> is a strict dot-prefix ancestor of \<open>p\<close> when \<open>p\<close> is \<open>a\<close>, a dot, and more.
\<close>

definition dot_ancestor :: "string \<Rightarrow> string \<Rightarrow> bool" where
  "dot_ancestor a p = (\<exists>r. p = a @ ''.'' @ r)"

definition allow_list :: "persistenceConfig \<Rightarrow> string list" where
  "allow_list cfg = (case paths cfg of None \<Rightarrow> [] | Some ps \<Rightarrow> ps)"

text \<open>
  The example configuration: allow-list \<open>user\<close>, blacklist \<open>user.secret\<close>; and the
  state of the module when it is loaded.
\<close>

definition user_config :: persistenceConfig where
  "user_config = \<lparr> pers_enabled = True, paths = Some [''user''],
      blacklist = [''user.secret''], batchDelay = 300 \<rparr>"

definition module_loaded :: persist_state where
  "module_loaded = \<lparr> roots = [], timeoutId = None, isPersisting = False,
      isHydrating = False, hasHydrated = False, next_timer = 1, armed = [], events = [] \<rparr>"

definition hydrated :: persist_state where
  "hydrated = module_loaded\<lparr> hasHydrated := True \<rparr>"

section \<open>The dependency tracker (tracking module)\<close>

text \<open>
  The sets of path strings kept by the proxy module (\<open>pathUsageStats\<close> and
  \<open>selectorPaths\<close>); a \<open>Set<string>\<close> in insertion order.
\<close>

record path_sets =
  accessedPaths :: "string list"
  modifiedPaths :: "string list"
  subscribedPaths :: "string list"
  selectorPaths :: "string list"

text \<open>The module variables of the tracker, with the path sets it writes to.\<close>

record tracking_state =
  currentPath :: "string list"
  isTracking :: bool
  skipTrackingDepth :: int
  usage :: path_sets

text \<open>How a call of a callback ends: it returns a value, or it throws.\<close>

datatype 'a completion = Normal 'a | Abrupt

text \<open>
  A selector is a callback that runs against the tracker: it may read through
  wrappers (each read calls \<open>trackPathAccess\<close>), and it returns or throws.
\<close>

type_synonym 'a selector = "tracking_state \<Rightarrow> 'a completion \<times> tracking_state"

text \<open>
  \<open>trackPathAccess\<close>; \<open>maxPathLength\<close> is \<open>proxyConfig.maxPathLength\<close>. The last
  segment of an empty path is \<open>undefined\<close>, which like the empty string is falsy.
\<close>

definition trackPathAccess :: "nat \<Rightarrow> string list \<Rightarrow> tracking_state \<Rightarrow> tracking_state" where
  "trackPathAccess maxPathLength path st =
     (if \<not> isTracking st \<or> skipTrackingDepth st > 0 then st
      else if path \<noteq> [] \<and> last path \<noteq> [] \<and> length path \<le> maxPathLength
      then st\<lparr> currentPath := currentPath st @ [last path],
               usage := (usage st)\<lparr>
                 accessedPaths := set_add (join_dot path) (accessedPaths (usage st)),
                 selectorPaths := set_add (join_dot path) (selectorPaths (usage st)) \<rparr> \<rparr>
      else st)"

text \<open>
  \<open>trackDependencies\<close>. There is no \<open>try\<close> around the selector: when it throws,
  the statements after the call do not run.
\<close>

definition trackDependencies :: "'a selector \<Rightarrow> tracking_state \<Rightarrow> ('a \<times> string list) completion \<times> tracking_state" where
  "trackDependencies selector st =
     (let st1 = st\<lparr> isTracking := True, currentPath := [], skipTrackingDepth := 0 \<rparr>
      in case selector st1 of
           (Abrupt, st2) \<Rightarrow> (Abrupt, st2)
         | (Normal v, st2) \<Rightarrow>
             (let st3 = st2\<lparr> isTracking := False \<rparr>;
                  cleanedPaths = filter (\<lambda>segment. segment \<noteq> [] \<and> length segment < 100)
                                   (currentPath st3)
              in (Normal (v, cleanedPaths), st3\<lparr> currentPath := [] \<rparr>)))"

text \<open>\<open>skipTracking\<close>: the decrement is in a \<open>finally\<close> block.\<close>

definition skipTracking :: "'a selector \<Rightarrow> 'a selector" where
  "skipTracking fn st =
     (case fn (st\<lparr> skipTrackingDepth := skipTrackingDepth st + 1 \<rparr>) of
        (c, st2) \<Rightarrow> (c, st2\<lparr> skipTrackingDepth := skipTrackingDepth st2 - 1 \<rparr>))"

text \<open>A selector that reads the given paths in turn and returns \<open>v\<close>.\<close>

definition reading :: "nat \<Rightarrow> string list list \<Rightarrow> 'a \<Rightarrow> 'a selector" where
  "reading maxPathLength ps v st = (Normal v, fold (trackPathAccess maxPathLength) ps st)"

text \<open>A selector that throws at once.\<close>

definition throwing :: "'a selector" where
  "throwing st = (Abrupt, st)"

definition recordable :: "nat \<Rightarrow> string list \<Rightarrow> bool" where
  "recordable maxPathLength path =
     (path \<noteq> [] \<and> last path \<noteq> [] \<and> length path \<le> maxPathLength)"

definition no_paths :: path_sets where
  "no_paths = \<lparr> accessedPaths = [], modifiedPaths = [], subscribedPaths = [], selectorPaths = [] \<rparr>"

definition tracker_loaded :: tracking_state where
  "tracker_loaded = \<lparr> currentPath = [], isTracking = False, skipTrackingDepth = 0, usage = no_paths \<rparr>"

text \<open>A property name of one hundred characters.\<close>

definition long_name :: string where
  "long_name = replicate 100 (CHR ''k'')"

section \<open>The wrapper cache and its recency index (proxy module)\<close>

text \<open>
  The fields of \<open>proxyConfig\<close> that wrapping reads. The two memory figures are
  JavaScript numbers; they are rationals here, so the estimate below is exact
  where the code rounds to a double.
\<close>

record proxyConfig =
  px_enabled :: bool
  maxDepth :: nat
  selectiveProxying :: bool
  preProxyPaths :: "string list"
  prioritizeUIObjects :: bool
  priorityPaths :: "string list"
  memoryThreshold :: rat
  targetMemoryUsage :: rat
  disableProxyingUnderPressure :: bool
  maxProxyCacheSize :: nat
  ultraSelectiveProxying :: bool
  forceMemoryCheck :: bool
  aggressiveMemoryManagement :: bool

text \<open>
  A JavaScript value as \<open>wrap\<close> sees it: \<open>Ref\<close> is a reference to an object or
  array (a wrapper is an object too), compared by identity; everything else has
  a \<open>typeof\<close> other than \<open>'object'\<close>, or is \<open>null\<close>.
\<close>

datatype jsval = Undefined | Null | Bool bool | Num int | Str string | Func nat | Ref nat

text \<open>
  The module state: the configuration object, the identity-keyed cache
  (\<open>proxyCache\<close>), the recency index (\<open>proxyCacheLRU\<close>: two parallel arrays and the
  size limit it read when the module was loaded), the cache statistics, the
  memory-pressure detector, the path sets, the path of each wrapper, and of the
  heap what wrapping depends on: which objects are extensible, and the next
  unused object identity. \<open>ticks\<close> counts the readings of \<open>Date.now()\<close>.
\<close>

record proxy_state =
  config :: proxyConfig
  proxyCache :: "nat \<rightharpoonup> nat"
  lru_keys :: "nat list"
  lru_timestamp :: "int list"
  lru_maxSize :: nat
  cacheHits :: int
  cacheMisses :: int
  totalProxiesCreated :: int
  activeCachedProxies :: int
  isUnderPressure :: bool
  lastCheckTime :: int
  highUsageCount :: int
  psets :: path_sets
  proxyPathMap :: "nat \<rightharpoonup> string list"
  extensible :: "nat \<Rightarrow> bool"
  next_ref :: nat
  ticks :: nat

text \<open>\<open>Date.now()\<close>: the clock is read once more.\<close>

definition Date_now :: "(nat \<Rightarrow> int) \<Rightarrow> proxy_state \<Rightarrow> int \<times> proxy_state" where
  "Date_now clock st = (clock (ticks st), st\<lparr> ticks := Suc (ticks st) \<rparr>)"

text \<open>\<open>Array.prototype.findIndex\<close>; \<open>None\<close> is \<open>-1\<close>.\<close>

fun find_index :: "('a \<Rightarrow> bool) \<Rightarrow> 'a list \<Rightarrow> nat option" where
  "find_index P [] = None"
| "find_index P (x # xs) =
     (if P x then Some 0 else map_option Suc (find_index P xs))"

text \<open>\<open>xs.splice(i, 1)\<close>: nothing happens when \<open>i\<close> is out of range.\<close>

definition splice1 :: "nat \<Rightarrow> 'a list \<Rightarrow> 'a list" where
  "splice1 i xs = take i xs @ drop (Suc i) xs"

text \<open>
  The scan of \<open>evictOldest\<close> for the first smallest timestamp: \<open>i\<close> is the loop
  index, the list what remains to be read.
\<close>

fun scan_oldest :: "int list \<Rightarrow> nat \<Rightarrow> nat \<Rightarrow> int \<Rightarrow> nat" where
  "scan_oldest [] i oldestIndex oldestTime = oldestIndex"
| "scan_oldest (t # ts) i oldestIndex oldestTime =
     (if t < oldestTime then scan_oldest ts (Suc i) i t
      else scan_oldest ts (Suc i) oldestIndex oldestTime)"

definition oldest_index :: "int list \<Rightarrow> nat" where
  "oldest_index ts = (case ts of [] \<Rightarrow> 0 | t0 # rest \<Rightarrow> scan_oldest rest 1 0 t0)"

definition evictOldest :: "proxy_state \<Rightarrow> proxy_state" where
  "evictOldest st =
     (if lru_keys st = [] then st
      else
        (let oldestIndex = oldest_index (lru_timestamp st);
             st1 = (if oldestIndex < length (lru_keys st) \<and>
                       proxyCache st (lru_keys st ! oldestIndex) \<noteq> None
                    then st\<lparr> proxyCache := (proxyCache st)(lru_keys st ! oldestIndex := None),
                             activeCachedProxies := activeCachedProxies st - 1 \<rparr>
                    else st)
         in st1\<lparr> lru_keys := splice1 oldestIndex (lru_keys st1),
                 lru_timestamp := splice1 oldestIndex (lru_timestamp st1) \<rparr>))"

text \<open>
  \<open>proxyCacheLRU.add\<close> for an object key. The two arrays have the same length
  in every state the module reaches, so the index found in \<open>keys\<close> is in range
  for \<open>timestamp\<close>.
\<close>

definition lru_add :: "(nat \<Rightarrow> int) \<Rightarrow> nat \<Rightarrow> proxy_state \<Rightarrow> proxy_state" where
  "lru_add clock key st =
     (case find_index (\<lambda>k. k = key) (lru_keys st) of
        Some index \<Rightarrow>
          (case Date_now clock st of
             (now, st1) \<Rightarrow> st1\<lparr> lru_timestamp := (lru_timestamp st1)[index := now] \<rparr>)
      | None \<Rightarrow>
          (case Date_now clock st of
             (now, st1) \<Rightarrow>
               (let st2 = st1\<lparr> lru_keys := lru_keys st1 @ [key],
                               lru_timestamp := lru_timestamp st1 @ [now] \<rparr>
                in if length (lru_keys st2) > lru_maxSize st2 then evictOldest st2 else st2)))"

definition lru_touch :: "(nat \<Rightarrow> int) \<Rightarrow> nat \<Rightarrow> proxy_state \<Rightarrow> proxy_state" where
  "lru_touch clock key st =
     (case find_index (\<lambda>k. k = key) (lru_keys st) of
        Some index \<Rightarrow>
          (case Date_now clock st of
             (now, st1) \<Rightarrow> st1\<lparr> lru_timestamp := (lru_timestamp st1)[index := now] \<rparr>)
      | None \<Rightarrow> st)"

definition estimateMemoryUsage :: "proxy_state \<Rightarrow> rat" where
  "estimateMemoryUsage st =
     400 + of_nat (length (lru_keys st)) * 2 +
     of_nat (length (accessedPaths (psets st)) + length (modifiedPaths (psets st)) +
             length (subscribedPaths (psets st))) * (2 / 10)"

text \<open>\<open>memoryPressure.check()\<close>, with its result.\<close>

definition memoryPressure_check :: "(nat \<Rightarrow> int) \<Rightarrow> proxy_state \<Rightarrow> bool \<times> proxy_state" where
  "memoryPressure_check clock st =
     (case Date_now clock st of
        (now, st1) \<Rightarrow>
          if \<not> forceMemoryCheck (config st1) \<and> now - lastCheckTime st1 < 5000
          then (isUnderPressure st1, st1)
          else
            (let st2 = st1\<lparr> lastCheckTime := now \<rparr>;
                 estimatedUsageMB = estimateMemoryUsage st2;
                 thresholdMB = targetMemoryUsage (config st2) * memoryThreshold (config st2);
                 st3 = st2\<lparr> isUnderPressure := estimatedUsageMB > thresholdMB \<rparr>;
                 st4 = (if aggressiveMemoryManagement (config st3) \<and>
                           estimatedUsageMB > thresholdMB * (8 / 10)
                        then (let st' = st3\<lparr> highUsageCount := highUsageCount st3 + 1 \<rparr>
                              in if highUsageCount st' > 2 then st'\<lparr> isUnderPressure := True \<rparr>
                                 else st')
                        else st3\<lparr> highUsageCount := 0 \<rparr>)
             in (isUnderPressure st4, st4)))"

definition isHighPriorityPath :: "proxyConfig \<Rightarrow> string list \<Rightarrow> bool" where
  "isHighPriorityPath cfg path =
     (if \<not> prioritizeUIObjects cfg then False
      else list_ex (\<lambda>p. join_dot path = p \<or> startsWith (join_dot path) (p @ ''.''))
             (priorityPaths cfg))"

text \<open>
  The two policy tests that come before the cache lookup, on the state after the
  memory check: the shed under memory pressure and the ultra-selective skip.
\<close>

definition policy_skips :: "bool \<Rightarrow> proxy_state \<Rightarrow> string list \<Rightarrow> nat \<Rightarrow> bool" where
  "policy_skips underPressure st path depth =
     ((underPressure \<and> disableProxyingUnderPressure (config st) \<and> depth > 0 \<and>
       \<not> isHighPriorityPath (config st) path)
      \<or>
      (ultraSelectiveProxying (config st) \<and> depth > 0 \<and>
       join_dot path \<notin> set (selectorPaths (psets st)) \<and>
       \<not> isHighPriorityPath (config st) path \<and>
       \<not> list_ex (\<lambda>p. join_dot path = p \<or> startsWith (join_dot path) (p @ ''.''))
            (preProxyPaths (config st))))"

text \<open>
  The part of \<open>createAdvancedProxy\<close> from \<open>// Create new proxy\<close> on: count the
  miss, replace a target that is not extensible by a shallow copy of it, make
  the wrapper, register it in the cache and the recency index under the (maybe
  copied) target, and remember its path. A new wrapper and a copy get the next
  unused identity. The helper methods that are attached to the target before it
  is wrapped are properties of the target and are not part of this state.
\<close>

definition create_new_proxy :: "(nat \<Rightarrow> int) \<Rightarrow> nat \<Rightarrow> string list \<Rightarrow> proxy_state \<Rightarrow> jsval \<times> proxy_state" where
  "create_new_proxy clock t path st1 =
     (let st2 = st1\<lparr> cacheMisses := cacheMisses st1 + 1,
                     totalProxiesCreated := totalProxiesCreated st1 + 1,
                     activeCachedProxies := activeCachedProxies st1 + 1 \<rparr>;
          (t', st3) =
            (if \<not> extensible st2 t
             then (next_ref st2,
                   st2\<lparr> extensible := (extensible st2)(next_ref st2 := True),
                        next_ref := Suc (next_ref st2) \<rparr>)
             else (t, st2));
          proxy = next_ref st3;
          st4 = st3\<lparr> extensible := (extensible st3)(proxy := extensible st3 t'),
                     next_ref := Suc proxy \<rparr>;
          st5 = st4\<lparr> proxyCache := (proxyCache st4)(t' \<mapsto> proxy) \<rparr>;
          st6 = lru_add clock t' st5;
          st7 = st6\<lparr> proxyPathMap := (proxyPathMap st6)(proxy \<mapsto> path) \<rparr>
      in (Ref proxy, st7))"

text \<open>\<open>createAdvancedProxy(target, path, depth)\<close> with the value it returns.\<close>

definition createAdvancedProxy :: "(nat \<Rightarrow> int) \<Rightarrow> jsval \<Rightarrow> string list \<Rightarrow> nat \<Rightarrow> proxy_state \<Rightarrow> jsval \<times> proxy_state" where
  "createAdvancedProxy clock target path depth st =
     (case target of
        Ref t \<Rightarrow>
          if \<not> px_enabled (config st) then (target, st)
          else
            (case memoryPressure_check clock st of
               (underPressure, st1) \<Rightarrow>
                 if policy_skips underPressure st1 path depth then (target, st1)
                 else
                   (case proxyCache st1 t of
                      Some cached \<Rightarrow>
                        (Ref cached, lru_touch clock t (st1\<lparr> cacheHits := cacheHits st1 + 1 \<rparr>))
                    | None \<Rightarrow>
                        if selectiveProxying (config st1) \<and> depth > maxDepth (config st1)
                        then (target, st1)
                        else create_new_proxy clock t path st1))
      | _ \<Rightarrow> (target, st))"

text \<open>
  \<open>configure\<close> merges the given fields into the configuration object
  (\<open>Object.assign(proxyConfig, config.proxy)\<close>) and touches nothing else of this
  module.
\<close>

definition configure_proxy :: "(proxyConfig \<Rightarrow> proxyConfig) \<Rightarrow> proxy_state \<Rightarrow> proxy_state" where
  "configure_proxy given st = st\<lparr> config := given (config st) \<rparr>"

definition defaultProxyConfig :: proxyConfig where
  "defaultProxyConfig = \<lparr> px_enabled = True, maxDepth = 5, selectiveProxying = False,
      preProxyPaths = [], prioritizeUIObjects = True, priorityPaths = [],
      memoryThreshold = 1, targetMemoryUsage = 3000, disableProxyingUnderPressure = False,
      maxProxyCacheSize = 5000, ultraSelectiveProxying = False, forceMemoryCheck = True,
      aggressiveMemoryManagement = False \<rparr>"

text \<open>
  The state when the module has been loaded: \<open>maxSize\<close> is initialised from the
  configuration object as it is then, which holds the defaults. Objects
  \<open>0, 1, 2, ...\<close> below \<open>next_ref\<close> exist already; \<open>frozen\<close> tells which of them
  are not extensible.
\<close>

definition proxy_loaded :: "(nat \<Rightarrow> bool) \<Rightarrow> nat \<Rightarrow> proxy_state" where
  "proxy_loaded frozen n =
     \<lparr> config = defaultProxyConfig, proxyCache = Map.empty, lru_keys = [], lru_timestamp = [],
       lru_maxSize = maxProxyCacheSize defaultProxyConfig,
       cacheHits = 0, cacheMisses = 0, totalProxiesCreated = 0, activeCachedProxies = 0,
       isUnderPressure = False, lastCheckTime = 0, highUsageCount = 0, psets = no_paths,
       proxyPathMap = Map.empty, extensible = (\<lambda>r. \<not> frozen r), next_ref = n, ticks = 0 \<rparr>"

text \<open>
  Every cached target is in the recency index, and the two arrays of the index
  have the same length.
\<close>

definition cache_indexed :: "proxy_state \<Rightarrow> bool" where
  "cache_indexed st =
     (dom (proxyCache st) \<subseteq> set (lru_keys st) \<and> length (lru_timestamp st) = length (lru_keys st))"

text \<open>Concrete runs: a clock that advances one millisecond per reading.\<close>

definition ms_clock :: "nat \<Rightarrow> int" where
  "ms_clock n = 1000 + int n"

text \<open>
  \<open>configure({proxy: {maxProxyCacheSize: 2}})\<close> after the module is loaded, then
  three distinct extensible objects wrapped at the root.
\<close>

definition configured_small :: proxy_state where
  "configured_small =
     configure_proxy (\<lambda>c. c\<lparr> maxProxyCacheSize := 2 \<rparr>) (proxy_loaded (\<lambda>r. False) 3)"

definition three_wrapped :: proxy_state where
  "three_wrapped =
     snd (createAdvancedProxy ms_clock (Ref 2) [''c''] 0
       (snd (createAdvancedProxy ms_clock (Ref 1) [''b''] 0
         (snd (createAdvancedProxy ms_clock (Ref 0) [''a''] 0 configured_small)))))"

text \<open>
  Ultra-selective wrapping configured, and one object wrapped at the root.
\<close>

definition selective_wrapped :: proxy_state where
  "selective_wrapped =
     snd (createAdvancedProxy ms_clock (Ref 0) [''a''] 0
       (configure_proxy (\<lambda>c. c\<lparr> ultraSelectiveProxying := True \<rparr>) (proxy_loaded (\<lambda>r. False) 1)))"

definition one_wrapped :: proxy_state where
  "one_wrapped =
     snd (createAdvancedProxy ms_clock (Ref 0) [''a''] 0 (proxy_loaded (\<lambda>r. False) 1))"

section \<open>Hydration: merging stored slices into the state\<close>

text \<open>
  Structured data as \<open>JSON.parse\<close> yields it and as the store holds it. An
  object and an array are both a list of properties in insertion order (an
  array has its indices as keys and is marked as an array); the store is taken
  to be a tree, with no object reachable along two paths, and the properties
  that objects inherit from their prototype are left out.
\<close>

datatype json = JNull | JBool bool | JNum int | JStr string | JObj bool "(string \<times> json) list"

text \<open>Assigning a property: an existing key keeps its place, a new key goes last.\<close>

fun put :: "string \<Rightarrow> json \<Rightarrow> (string \<times> json) list \<Rightarrow> (string \<times> json) list" where
  "put k v [] = [(k, v)]"
| "put k v ((k', v') # ps) = (if k' = k then (k, v) # ps else (k', v') # put k v ps)"



















text \<open>
  The navigation and assignment of \<open>hydrateState\<close> for one slice: a missing or
  \<open>null\<close> property on the way becomes a new empty object, and an assignment to
  a property of anything that is not an object throws a \<open>TypeError\<close> (the module
  is strict code), before anything has been changed. \<open>None\<close> is the exception.
\<close>

definition child_or_new :: "json option \<Rightarrow> json" where
  "child_or_new c = (case c of None \<Rightarrow> JObj False [] | Some JNull \<Rightarrow> JObj False [] | Some d \<Rightarrow> d)"

fun assign_props :: "string list \<Rightarrow> json \<Rightarrow> (string \<times> json) list \<Rightarrow> (string \<times> json) list option" where
  "assign_props [] v ps = Some ps"
| "assign_props [k] v ps = Some (put k v ps)"
| "assign_props (k # k' # ks) v ps =
     (case child_or_new (map_of ps k) of
        JObj a cs \<Rightarrow>
          (case assign_props (k' # ks) v cs of
             None \<Rightarrow> None
           | Some cs' \<Rightarrow> Some (put k (JObj a cs') ps))
      | _ \<Rightarrow> None)"







text \<open>Reading the value at a path, through objects only.\<close>

fun lookup_path :: "string list \<Rightarrow> json \<Rightarrow> json option" where
  "lookup_path [] node = Some node"
| "lookup_path (k # ks) node =
     (case node of
        JObj a ps \<Rightarrow> (case map_of ps k of None \<Rightarrow> None | Some c \<Rightarrow> lookup_path ks c)
      | _ \<Rightarrow> None)"


















section \<open>Persistence: the batch flush\<close>
























section \<open>Notification fan-out: proofs\<close>

lemma fold_record_call_dead: "\<not> alive r \<Longrightarrow> fold (record_call body) ls r = r"
  by (induction ls) (simp_all add: record_call_def)

lemma fold_record_call_quiet:
  "\<forall>l\<in>set ls. body l = [] \<Longrightarrow>
   fold (record_call body) ls (Run True called) = Run True (called @ ls)"
  by (induction ls arbitrary: called) (simp_all add: record_call_def)

lemma fold_step_call_dead: "\<not> alive (snd w) \<Longrightarrow> fold (step_call cfg body) ls w = w"
  by (induction ls) (simp_all add: step_call_def)

lemma fold_step_call_quiet:
  "\<forall>l\<in>set ls. body l = [] \<Longrightarrow>
   fold (step_call cfg body) ls (st, Run True called) = (st, Run True (called @ ls))"
  by (induction ls arbitrary: called) (simp_all add: step_call_def record_call_def)

lemma fold_step_call_throw:
  assumes "\<forall>x\<in>set xs. body x = []" and "body l \<noteq> []"
  shows "fold (step_call cfg body) (xs @ l # ys) (st, Run True called) =
           (registry_effects cfg (body l) st, Run False (called @ xs @ [l]))"
proof -
  have "fold (step_call cfg body) (xs @ l # ys) (st, Run True called) =
      fold (step_call cfg body) ys (step_call cfg body l (st, Run True (called @ xs)))"
    using assms(1) by (simp add: fold_step_call_quiet)
  also have "step_call cfg body l (st, Run True (called @ xs)) =
      (registry_effects cfg (body l) st, Run False (called @ xs @ [l]))"
    using assms(2) by (simp add: step_call_def record_call_def)
  finally show ?thesis by (simp add: fold_step_call_dead)
qed

lemma snd_fold_step_call:
  "snd (fold (step_call cfg body) ls w) = fold (record_call body) ls (snd w)"
proof (induction ls arbitrary: w)
  case Nil then show ?case by simp
next
  case (Cons l ls)
  have "snd (step_call cfg body l w) = record_call body l (snd w)"
    by (simp add: step_call_def record_call_def)
  then show ?case using Cons.IH [of "step_call cfg body l w"] by simp
qed

text \<open>As long as no callback has thrown, the state is as it was.\<close>

lemma fst_fold_step_call_alive:
  "alive (snd (fold (step_call cfg body) ls w)) \<Longrightarrow> fst (fold (step_call cfg body) ls w) = fst w"
proof (induction ls arbitrary: w)
  case Nil then show ?case by simp
next
  case (Cons l ls)
  let ?w = "step_call cfg body l w"
  have a: "alive (snd (fold (step_call cfg body) ls ?w))" using Cons.prems by simp
  then have "alive (snd ?w)"
    using fold_step_call_dead [of ?w cfg body ls] by (cases "alive (snd ?w)") simp_all
  then have "alive (snd w) \<and> body l = []"
    by (cases "alive (snd w)") (simp_all add: step_call_def record_call_def)
  then have "fst ?w = fst w" by (simp add: step_call_def)
  then show ?case using Cons.IH [OF a] by simp
qed

lemma to_first_throw_quiet: "\<forall>l\<in>set ls. body l = [] \<Longrightarrow> to_first_throw body ls"
  by (induction ls) simp_all

lemma to_first_throw_at_throw:
  "\<forall>x\<in>set xs. body x = [] \<Longrightarrow> throws_first (body l) \<Longrightarrow> to_first_throw body (xs @ l # ys)"
  by (induction xs) auto

lemma to_first_throw_append:
  assumes "alive r \<longrightarrow> to_first_throw body (xs @ ys)"
  shows "(alive r \<longrightarrow> to_first_throw body xs) \<and>
         (alive (fold (record_call body) xs r) \<longrightarrow> to_first_throw body ys)"
  using assms
proof (induction xs arbitrary: r)
  case Nil then show ?case by simp
next
  case (Cons x xs)
  show ?case
  proof (cases "alive r")
    case False
    then have "fold (record_call body) (x # xs) r = r" by (rule fold_record_call_dead)
    then show ?thesis using False by (simp only:) simp
  next
    case True
    show ?thesis
    proof (cases "body x = []")
      case quiet: True
      then have "alive (record_call body x r) \<longrightarrow> to_first_throw body (xs @ ys)"
        using Cons.prems True by simp
      from Cons.IH [OF this] show ?thesis
        using quiet True by (simp add: record_call_def)
    next
      case False
      then have "\<not> alive (record_call body x r)" using True by (simp add: record_call_def)
      then show ?thesis
        using False Cons.prems True by (simp add: fold_record_call_dead)
    qed
  qed
qed

text \<open>
  What is known of a fan-out between two of its groups: unless a callback has
  thrown, the state is still \<open>st\<close> and the callbacks to come are quiet up to the
  first that throws.
\<close>

lemma fan_out_goes_on:
  assumes "alive (snd w) \<longrightarrow> fst w = st \<and> to_first_throw body (xs @ ys)"
  shows "alive (snd w) \<longrightarrow> fst w = st \<and> to_first_throw body xs"
    and "alive (snd (fold (step_call cfg body) xs w)) \<longrightarrow>
           fst (fold (step_call cfg body) xs w) = st \<and> to_first_throw body ys"
proof -
  have t: "alive (snd w) \<longrightarrow> to_first_throw body (xs @ ys)" using assms by simp
  note ap = to_first_throw_append [OF t]
  show "alive (snd w) \<longrightarrow> fst w = st \<and> to_first_throw body xs"
    using assms ap by simp
  show "alive (snd (fold (step_call cfg body) xs w)) \<longrightarrow>
           fst (fold (step_call cfg body) xs w) = st \<and> to_first_throw body ys"
  proof
    assume a: "alive (snd (fold (step_call cfg body) xs w))"
    then have f: "fst (fold (step_call cfg body) xs w) = fst w"
      by (rule fst_fold_step_call_alive)
    have "alive (snd w)"
      using a fold_step_call_dead [of w cfg body xs] by (cases "alive (snd w)") simp_all
    then have "fst w = st" using assms by simp
    moreover have "to_first_throw body ys"
      using ap a by (simp add: snd_fold_step_call)
    ultimately show "fst (fold (step_call cfg body) xs w) = st \<and> to_first_throw body ys"
      using f by simp
  qed
qed

text \<open>
  A body that throws first does to the state what \<open>registry_effects\<close> says,
  whatever \<open>notifyListeners\<close> would do.
\<close>

lemma run_body_throws_first:
  "throws_first es \<Longrightarrow> alive (snd w) \<Longrightarrow>
   run_body notify cfg es w = Some (registry_effects cfg es (fst w), Run False (invoked (snd w)))"
  by (induction es arbitrary: w rule: throws_first.induct) simp_all

lemma call_step:
  assumes "to_first_throw body (l # ls)"
  shows "call notify cfg body l (st, Run True called) =
           Some (step_call cfg body l (st, Run True called))"
proof (cases "body l = []")
  case True
  then show ?thesis by (simp add: call_def step_call_def record_call_def)
next
  case False
  then have "throws_first (body l)" using assms by simp
  then have "run_body notify cfg (body l) (st, Run True (called @ [l])) =
      Some (registry_effects cfg (body l) st, Run False (called @ [l]))"
    using run_body_throws_first [of "body l" "(st, Run True (called @ [l]))" notify cfg] by simp
  then show ?thesis using False by (simp add: call_def step_call_def record_call_def)
qed

lemma set_live: "set (live es) = {x. Some x \<in> set es}"
  by (induction es rule: live.induct) auto

lemma live_drop_None: "i < length es \<Longrightarrow> es ! i = None \<Longrightarrow> live (drop i es) = live (drop (Suc i) es)"
  by (simp add: Cons_nth_drop_Suc [symmetric])

lemma live_drop_Some:
  "i < length es \<Longrightarrow> es ! i = Some x \<Longrightarrow> live (drop i es) = x # live (drop (Suc i) es)"
  by (simp add: Cons_nth_drop_Suc [symmetric])

lemma forEach_call_dead: "\<not> alive (snd w) \<Longrightarrow> forEach_call fuel f a i w = Some w"
  by (cases fuel) simp_all

text \<open>
  Walking a \<open>Set\<close> of such callbacks calls its live entries in order, up to the
  first that throws.
\<close>

lemma forEach_call_step:
  assumes "length (sets st ! a) - i \<le> fuel"
    and "alive r \<longrightarrow> to_first_throw body (live (drop i (sets st ! a)))"
  shows "forEach_call fuel (call notify cfg body) a i (st, r) =
           Some (fold (step_call cfg body) (live (drop i (sets st ! a))) (st, r))"
  using assms
proof (induction fuel arbitrary: i r)
  case 0
  then show ?case by (simp add: fold_step_call_dead)
next
  case (Suc fuel)
  show ?case
  proof (cases "\<not> alive r \<or> length (sets st ! a) \<le> i")
    case True
    then show ?thesis by (auto simp: fold_step_call_dead)
  next
    case False
    then have al: "alive r" and i: "i < length (sets st ! a)" by simp_all
    obtain called where r: "r = Run True called" using al by (cases r) simp
    have fuel: "length (sets st ! a) - Suc i \<le> fuel" using Suc.prems(1) i by simp
    show ?thesis
    proof (cases "sets st ! a ! i")
      case None
      have d: "live (drop i (sets st ! a)) = live (drop (Suc i) (sets st ! a))"
        using i None by (rule live_drop_None)
      have "alive r \<longrightarrow> to_first_throw body (live (drop (Suc i) (sets st ! a)))"
        using Suc.prems(2) d by simp
      from Suc.IH [OF fuel this] show ?thesis
        using False None d by simp
    next
      case (Some l)
      let ?rest = "live (drop (Suc i) (sets st ! a))"
      have d: "live (drop i (sets st ! a)) = l # ?rest"
        using i Some by (rule live_drop_Some)
      have t: "to_first_throw body (l # ?rest)"
        using Suc.prems(2) al d by simp
      have c: "call notify cfg body l (st, r) = Some (step_call cfg body l (st, r))"
        unfolding r using t by (rule call_step)
      show ?thesis
      proof (cases "body l = []")
        case True
        then have s: "step_call cfg body l (st, r) = (st, record_call body l r)"
          using al by (simp add: step_call_def)
        have "alive (record_call body l r) \<longrightarrow> to_first_throw body ?rest"
          using t True by simp
        from Suc.IH [OF fuel this] show ?thesis
          using False Some d c s by simp
      next
        case thrown: False
        then have dead: "\<not> alive (snd (step_call cfg body l (st, r)))"
          using al by (simp add: step_call_def record_call_def)
        have "forEach_call fuel (call notify cfg body) a (Suc i) (step_call cfg body l (st, r)) =
            Some (step_call cfg body l (st, r))"
          using dead by (rule forEach_call_dead)
        then show ?thesis
          using False Some d c dead by (simp add: fold_step_call_dead)
      qed
    qed
  qed
qed

lemma map_of_registry:
  "map_of (registry st) key =
     map_option (\<lambda>a. live (sets st ! a)) (Map_get (pathListeners st) key)"
proof -
  have "map_of (map (\<lambda>e. (fst e, g (snd e))) xs) key = map_option g (map_of xs key)"
    for g :: "nat \<Rightarrow> listener list" and xs :: "(string \<times> nat) list"
    by (induction xs) auto
  then show ?thesis by (simp add: registry_def Map_get_def)
qed

lemma listeners_on_registry:
  "listeners_on (registry st) key =
     (case Map_get (pathListeners st) key of None \<Rightarrow> [] | Some a \<Rightarrow> live (sets st ! a))"
  by (simp add: listeners_on_def map_of_registry split: option.splits)

lemma set_length_le_registry_size:
  assumes "e \<in> set (live (pathListeners st))"
  shows "length (sets st ! snd e) \<le> registry_size st - length (pathListeners st)"
proof -
  have "length (sets st ! snd e) \<in> set (map (\<lambda>e. length (sets st ! snd e)) (live (pathListeners st)))"
    using assms by auto
  then have "length (sets st ! snd e) \<le>
      sum_list (map (\<lambda>e. length (sets st ! snd e)) (live (pathListeners st)))"
    by (simp add: member_le_sum_list)
  then show ?thesis by (simp add: registry_size_def)
qed

lemma notify_key_step:
  assumes "registry_size st \<le> fuel"
    and "alive (snd w) \<longrightarrow> fst w = st \<and> to_first_throw body (listeners_on (registry st) key)"
  shows "notify_key fuel (call notify cfg body) key w =
           Some (fold (step_call cfg body) (listeners_on (registry st) key) w)"
proof (cases "alive (snd w)")
  case False
  then show ?thesis by (simp add: notify_key_def fold_step_call_dead)
next
  case True
  then have "fst w = st" and t: "to_first_throw body (listeners_on (registry st) key)"
    using assms(2) by simp_all
  then obtain r where w: "w = (st, r)" by (cases w) simp
  have al: "alive r" using True w by simp
  show ?thesis
  proof (cases "Map_get (pathListeners st) key")
    case None
    then show ?thesis
      unfolding w by (simp add: notify_key_def listeners_on_registry)
  next
    case (Some a)
    then have "(key, a) \<in> set (live (pathListeners st))"
      unfolding Map_get_def by (rule map_of_SomeD)
    from set_length_le_registry_size [OF this]
    have f: "length (sets st ! a) - 0 \<le> fuel" using assms(1) by simp
    have l: "listeners_on (registry st) key = live (drop 0 (sets st ! a))"
      using Some by (simp add: listeners_on_registry)
    have "alive r \<longrightarrow> to_first_throw body (live (drop 0 (sets st ! a)))"
      using t l by simp
    with f have "forEach_call fuel (call notify cfg body) a 0 (st, r) =
           Some (fold (step_call cfg body) (live (drop 0 (sets st ! a))) (st, r))"
      by (rule forEach_call_step)
    then show ?thesis
      unfolding w l using Some al by (simp add: notify_key_def)
  qed
qed

lemma notify_parents_step:
  assumes "registry_size st \<le> fuel"
    and "alive (snd w) \<longrightarrow> fst w = st \<and> to_first_throw body
           (concat (map (\<lambda>i. listeners_on (registry st) (join_dot (take i path))) (rev [0..<n])))"
  shows "notify_parents fuel (call notify cfg body) path n w =
           Some (fold (step_call cfg body)
             (concat (map (\<lambda>i. listeners_on (registry st) (join_dot (take i path))) (rev [0..<n]))) w)"
  using assms(2)
proof (induction n arbitrary: w)
  case 0 then show ?case by simp
next
  case (Suc n)
  let ?g = "listeners_on (registry st) (join_dot (take n path))"
  let ?rest = "concat (map (\<lambda>i. listeners_on (registry st) (join_dot (take i path))) (rev [0..<n]))"
  have "alive (snd w) \<longrightarrow> fst w = st \<and> to_first_throw body (?g @ ?rest)"
    using Suc.prems by simp
  note g = fan_out_goes_on [OF this]
  have k: "notify_key fuel (call notify cfg body) (join_dot (take n path)) w =
      Some (fold (step_call cfg body) ?g w)"
    using assms(1) g(1) by (rule notify_key_step)
  show ?case using k Suc.IH [OF g(2)] by simp
qed

lemma notify_children_dead: "\<not> alive (snd w) \<Longrightarrow> notify_children fuel f pfx j w = Some w"
  by (cases fuel) simp_all

lemma notify_children_step:
  assumes "length (pathListeners st) - j + s \<le> fuel"
    and "\<forall>e\<in>set (live (pathListeners st)). length (sets st ! snd e) \<le> s"
    and "alive (snd w) \<longrightarrow> fst w = st \<and> to_first_throw body
           (concat (map (\<lambda>e. live (sets st ! snd e))
              (filter (\<lambda>e. startsWith (fst e) pfx) (live (drop j (pathListeners st))))))"
  shows "notify_children fuel (call notify cfg body) pfx j w =
           Some (fold (step_call cfg body)
             (concat (map (\<lambda>e. live (sets st ! snd e))
                (filter (\<lambda>e. startsWith (fst e) pfx) (live (drop j (pathListeners st)))))) w)"
  using assms(1,3)
proof (induction fuel arbitrary: j w)
  case 0
  let ?m = "pathListeners st"
  show ?case
  proof (cases "alive (snd w)")
    case False
    then show ?thesis by (simp add: fold_step_call_dead)
  next
    case True
    then have "fst w = st" using "0.prems"(2) by simp
    moreover have "length ?m \<le> j" using "0.prems"(1) by simp
    ultimately show ?thesis by simp
  qed
next
  case (Suc fuel)
  let ?m = "pathListeners st"
  let ?from = "\<lambda>j. concat (map (\<lambda>e. live (sets st ! snd e))
                (filter (\<lambda>e. startsWith (fst e) pfx) (live (drop j ?m))))"
  show ?case
  proof (cases "alive (snd w)")
    case False
    then show ?thesis by (simp add: fold_step_call_dead)
  next
    case al: True
    then have w: "fst w = st" and t: "to_first_throw body (?from j)"
      using Suc.prems(2) by simp_all
    show ?thesis
    proof (cases "length ?m \<le> j")
      case True
      then show ?thesis using w by simp
    next
      case False
      then have j: "j < length ?m" by simp
      have fuel: "length ?m - Suc j + s \<le> fuel" using Suc.prems(1) j by simp
      have enter: "\<not> (\<not> alive (snd w) \<or> length (pathListeners (fst w)) \<le> j)"
        using al w j by simp
      show ?thesis
      proof (cases "?m ! j")
        case None
        have d: "live (drop j ?m) = live (drop (Suc j) ?m)" using j None by (rule live_drop_None)
        have "alive (snd w) \<longrightarrow> fst w = st \<and> to_first_throw body (?from (Suc j))"
          using w t d by simp
        from Suc.IH [OF fuel this] show ?thesis using enter None d w by simp
      next
        case (Some e)
        obtain key a where e: "e = (key, a)" by (cases e)
        have d: "live (drop j ?m) = (key, a) # live (drop (Suc j) ?m)"
          using j Some e by (simp add: live_drop_Some)
        show ?thesis
        proof (cases "startsWith key pfx")
          case False
          have "alive (snd w) \<longrightarrow> fst w = st \<and> to_first_throw body (?from (Suc j))"
            using w t d False by simp
          from Suc.IH [OF fuel this] show ?thesis
            using enter Some e d False w by simp
        next
          case True
          have fr: "?from j = live (sets st ! a) @ ?from (Suc j)" using d True by simp
          have "alive (snd w) \<longrightarrow> fst w = st \<and>
              to_first_throw body (live (sets st ! a) @ ?from (Suc j))"
            using w t fr by simp
          note g = fan_out_goes_on [OF this]
          have "(key, a) \<in> set (live (drop j ?m))" using d by simp
          then have "(key, a) \<in> set (live ?m)"
            unfolding set_live by (auto dest: in_set_dropD)
          then have "length (sets st ! a) \<le> s" using assms(2) by force
          then have room: "length (sets st ! a) - 0 \<le> fuel" using fuel by simp
          obtain r where wr: "w = (st, r)" using w by (cases w) simp
          have "alive r \<longrightarrow> to_first_throw body (live (drop 0 (sets st ! a)))"
            using g(1) al by simp
          with room have "forEach_call fuel (call notify cfg body) a 0 (st, r) =
              Some (fold (step_call cfg body) (live (drop 0 (sets st ! a))) (st, r))"
            by (rule forEach_call_step)
          then have x: "forEach_call fuel (call notify cfg body) a 0 w =
              Some (fold (step_call cfg body) (live (sets st ! a)) w)"
            unfolding wr by simp
          show ?thesis
            using enter Some e True x Suc.IH [OF fuel g(2)] fr w by simp
        qed
      qed
    qed
  qed
qed

lemma registry_count_render_cycle [simp]:
  "registry (count_render_cycle env st) = registry st"
  "registry_size (count_render_cycle env st) = registry_size st"
  "pathListeners (count_render_cycle env st) = pathListeners st"
  "sets (count_render_cycle env st) = sets st"
  by (simp_all add: count_render_cycle_def registry_def registry_size_def)

lemma descendants_registry:
  "concat (map snd (filter (\<lambda>e. startsWith (fst e) pfx) (registry st))) =
   concat (map (\<lambda>e. live (sets st ! snd e))
     (filter (\<lambda>e. startsWith (fst e) pfx) (live (drop 0 (pathListeners st)))))"
  by (simp add: registry_def filter_map comp_def)

text \<open>
  In a browser, with callbacks that are quiet up to the first that throws, one
  notification runs the callbacks of \<open>fan_out\<close> in order and comes to an end.
\<close>

lemma notifyListeners_run:
  assumes win: "hasWindow env"
    and fuel: "registry_size st < fuel"
    and tft: "to_first_throw body (fan_out (registry st) path)"
  shows "notifyListeners fuel env body path st =
           Some (fold (step_call (monitoring env) body) (fan_out (registry st) path)
                   (count_render_cycle env st, Run True []))"
proof -
  obtain n where n: "fuel = Suc n" using fuel by (cases fuel) simp_all
  let ?st = "count_render_cycle env st"
  let ?f = "call (notify_from n env body) (monitoring env) body"
  let ?sc = "step_call (monitoring env) body"
  let ?g1 = "exact_group (registry st) path"
  let ?g2 = "array_parent_group (registry st) path"
  let ?g3 = "ancestor_groups (registry st) path"
  let ?g4 = "concat (map snd (filter (\<lambda>e. startsWith (fst e) (join_dot path @ ''.'')) (registry st)))"
  let ?w0 = "(?st, Run True [])"
  let ?w1 = "fold ?sc ?g1 ?w0"
  let ?w2 = "fold ?sc ?g2 ?w1"
  let ?w3 = "fold ?sc ?g3 ?w2"
  let ?w4 = "fold ?sc ?g4 ?w3"
  have size: "registry_size ?st \<le> fuel" using fuel by simp
  have "alive (snd ?w0) \<longrightarrow> fst ?w0 = ?st \<and> to_first_throw body (?g1 @ ?g2 @ ?g3 @ ?g4)"
    using tft by (simp add: fan_out_def)
  note s1 = fan_out_goes_on [OF this]
  note s2 = fan_out_goes_on [OF s1(2)]
  note s3 = fan_out_goes_on [OF s2(2)]
  have k1: "notify_key fuel ?f (join_dot path) ?w0 = Some ?w1"
    using notify_key_step [OF size, of ?w0 body "join_dot path" "notify_from n env body"
        "monitoring env"] s1(1)
    by (simp add: exact_group_def)
  have k2: "(if (if path \<noteq> [] then last path else []) \<noteq> [] \<and>
                number_not_NaN (if path \<noteq> [] then last path else [])
             then notify_key fuel ?f (join_dot (butlast path)) ?w1
             else Some ?w1) = Some ?w2"
  proof (cases "path \<noteq> [] \<and> last path \<noteq> [] \<and> number_not_NaN (last path)")
    case True
    then have g: "?g2 = listeners_on (registry st) (join_dot (butlast path))"
      by (simp add: array_parent_group_def)
    have "notify_key fuel ?f (join_dot (butlast path)) ?w1 = Some ?w2"
      using notify_key_step [OF size, of ?w1 body "join_dot (butlast path)"
          "notify_from n env body" "monitoring env"] s2(1)
      by (simp add: g)
    then show ?thesis using True by simp
  next
    case False
    then have "?g2 = []" unfolding array_parent_group_def by (simp only: if_False)
    then show ?thesis using False by auto
  qed
  have k3: "notify_parents fuel ?f path (length path) ?w2 = Some ?w3"
    using notify_parents_step [OF size, of ?w2 body path "length path"
        "notify_from n env body" "monitoring env"] s3(1)
    by (simp add: ancestor_groups_def)
  have bound: "\<forall>e\<in>set (live (pathListeners ?st)).
      length (sets ?st ! snd e) \<le> registry_size ?st - length (pathListeners ?st)"
    using set_length_le_registry_size by blast
  have room: "length (pathListeners ?st) - 0 + (registry_size ?st - length (pathListeners ?st)) \<le> fuel"
    using size by (simp add: registry_size_def)
  have k4: "notify_children fuel ?f (join_dot path @ ''.'') 0 ?w3 = Some ?w4"
    using notify_children_step [OF room bound, of ?w3 body "join_dot path @ ''.''"
        "notify_from n env body" "monitoring env"] s3(2)
    by (simp add: descendants_registry)
  have "notify_groups fuel ?f env path (st, Run True []) = Some ?w4"
    using win k1 k2 k3 k4 by (simp add: notify_groups_def Let_def)
  moreover have "?w4 = fold ?sc (fan_out (registry st) path) ?w0"
    by (simp add: fan_out_def)
  ultimately show ?thesis
    by (simp add: notifyListeners_def n)
qed

lemma join_dot_append:
  "xs \<noteq> [] \<Longrightarrow> ys \<noteq> [] \<Longrightarrow> join_dot (xs @ ys) = join_dot xs @ ''.'' @ join_dot ys"
proof (induction xs rule: join_dot.induct)
  case 1 then show ?case by simp
next
  case (2 s) then show ?case by (cases ys) simp_all
next
  case (3 s t ss) then show ?case by simp
qed

lemma startsWith_iff: "startsWith s p \<longleftrightarrow> (\<exists>r. s = p @ r)"
  unfolding startsWith_def
  by (metis append_eq_conv_conj append_take_drop_id)

text \<open>
  Below a non-root path, the registry keys that extend the path by at least one
  segment are the keys that start with the path's key and a dot.
\<close>

lemma descendant_key_startsWith:
  assumes "path \<noteq> []"
  shows "descendant_key path key \<longleftrightarrow> startsWith key (join_dot path @ ''.'')"
proof
  assume "descendant_key path key"
  then obtain segs where "segs \<noteq> []" "key = join_dot (path @ segs)"
    by (auto simp: descendant_key_def)
  then show "startsWith key (join_dot path @ ''.'')"
    using assms by (simp add: join_dot_append startsWith_iff)
next
  assume "startsWith key (join_dot path @ ''.'')"
  then obtain r where "key = (join_dot path @ ''.'') @ r"
    unfolding startsWith_iff by blast
  then have "key = join_dot (path @ [r])"
    using assms by (simp add: join_dot_append)
  then show "descendant_key path key"
    unfolding descendant_key_def by blast
qed

lemma listeners_on_mem:
  assumes "distinct (map fst reg)"
  shows "l \<in> set (listeners_on reg key) \<longleftrightarrow> (\<exists>ls. (key, ls) \<in> set reg \<and> l \<in> set ls)"
  using assms by (auto simp: listeners_on_def split: option.splits dest: map_of_SomeD
      simp: map_of_eq_None_iff image_iff)

lemma descendant_group_startsWith:
  "path \<noteq> [] \<Longrightarrow>
   descendant_group reg path =
     concat (map snd (filter (\<lambda>e. startsWith (fst e) (join_dot path @ ''.'')) reg))"
  by (simp add: descendant_group_def descendant_key_startsWith)

lemma fan_out_groups:
  "path \<noteq> [] \<Longrightarrow>
   fan_out reg path =
     exact_group reg path @ array_parent_group reg path @ ancestor_groups reg path @
     descendant_group reg path"
  by (simp add: fan_out_def descendant_group_startsWith)

lemma ancestor_groups_mem:
  assumes "distinct (map fst reg)"
  shows "l \<in> set (ancestor_groups reg path) \<longleftrightarrow>
         (\<exists>key ls. (key, ls) \<in> set reg \<and> l \<in> set ls \<and> ancestor_key path key)"
  using assms
  by (simp add: ancestor_groups_def ancestor_key_def listeners_on_mem Bex_def) blast

text \<open>The array parent is the nearest strict ancestor, so its group is called twice.\<close>

lemma array_parent_sub_ancestors:
  "set (array_parent_group reg path) \<subseteq> set (ancestor_groups reg path)"
proof (cases "path = []")
  case True then show ?thesis by (simp add: array_parent_group_def)
next
  case False
  then have "length path - 1 < length path" by simp
  moreover have "butlast path = take (length path - 1) path" by (simp add: butlast_conv_take)
  ultimately have "set (listeners_on reg (join_dot (butlast path))) \<subseteq>
      set (ancestor_groups reg path)"
    unfolding ancestor_groups_def by (simp add: Bex_def subset_iff) metis
  then show ?thesis
    by (auto simp: array_parent_group_def)
qed

lemma descendant_group_mem:
  "l \<in> set (descendant_group reg path) \<longleftrightarrow>
   (\<exists>key ls. (key, ls) \<in> set reg \<and> l \<in> set ls \<and> descendant_key path key)"
  by (force simp: descendant_group_def)

lemma fan_out_mem:
  assumes "path \<noteq> []" and "distinct (map fst reg)"
  shows "l \<in> set (fan_out reg path) \<longleftrightarrow>
         (\<exists>key ls. (key, ls) \<in> set reg \<and> l \<in> set ls \<and>
            (key = join_dot path \<or> ancestor_key path key \<or> descendant_key path key))"
proof -
  have "l \<in> set (fan_out reg path) \<longleftrightarrow>
        l \<in> set (exact_group reg path) \<or> l \<in> set (ancestor_groups reg path) \<or>
        l \<in> set (descendant_group reg path)"
    using array_parent_sub_ancestors [of reg path] assms(1)
    by (auto simp: fan_out_groups)
  then show ?thesis
    using assms(2)
    by (simp add: exact_group_def listeners_on_mem ancestor_groups_mem descendant_group_mem)
      blast
qed

section \<open>Subscribing and unsubscribing: proofs\<close>

lemma live_append: "live (xs @ ys) = live xs @ live ys"
  by (induction xs rule: live.induct) simp_all

lemma live_Map_delete: "live (Map_delete k m) = filter (\<lambda>e. fst e \<noteq> k) (live m)"
  by (induction m rule: live.induct) (auto simp: Map_delete_def)

lemma live_Set_delete: "live (Set_delete x es) = removeAll x (live es)"
  by (induction es rule: live.induct) (auto simp: Set_delete_def)

lemma Set_delete_twice: "Set_delete x (Set_delete x es) = Set_delete x es"
  by (induction es) (auto simp: Set_delete_def)

lemma map_of_filter_key:
  "map_of (filter (\<lambda>e. fst e \<noteq> k) xs) q = (if q = k then None else map_of xs q)"
  by (induction xs) auto

lemma Map_get_Map_delete: "Map_get (Map_delete k m) q = (if q = k then None else Map_get m q)"
  by (simp add: Map_get_def live_Map_delete map_of_filter_key)

lemma registry_distinct: "registry_ok st \<Longrightarrow> distinct (map fst (registry st))"
  by (simp add: registry_ok_def registry_def comp_def)

lemma no_listeners_ok: "registry_ok no_listeners"
  by (simp add: registry_ok_def no_listeners_def)

lemma at_path_frame:
  "pathListeners (at_path p op st) = pathListeners st"
  "length (sets (at_path p op st)) = length (sets st)"
  "stats (at_path p op st) = stats st"
  by (simp_all add: at_path_def split: option.splits)

lemma at_path_ok: "registry_ok st \<Longrightarrow> registry_ok (at_path p op st)"
  by (simp add: registry_ok_def at_path_frame)

text \<open>The module keeps the registry well-formed.\<close>

lemma subscribe_ok:
  assumes "registry_ok st"
  shows "registry_ok (subscribe cfg p l st)"
proof -
  let ?st1 = "st\<lparr> sets := sets st @ [[]],
      pathListeners := pathListeners st @ [Some (p, length (sets st))] \<rparr>"
  have "registry_ok ?st1" if "Map_get (pathListeners st) p = None"
  proof -
    have "p \<notin> fst ` set (live (pathListeners st))"
      using that by (simp add: Map_get_def map_of_eq_None_iff)
    moreover have "length (sets st) \<notin> snd ` set (live (pathListeners st))"
      using assms by (auto simp: registry_ok_def)
    ultimately show ?thesis
      using assms by (auto simp: registry_ok_def live_append less_Suc_eq)
  qed
  then have "registry_ok (if Map_get (pathListeners st) p = None then ?st1 else st)"
    using assms by simp
  then have "registry_ok (at_path p (Set_add l)
      (if Map_get (pathListeners st) p = None then ?st1 else st))"
    by (rule at_path_ok)
  then show ?thesis
    by (simp add: subscribe_def Let_def registry_ok_def)
qed

lemma unsubscribe_ok:
  assumes "registry_ok st"
  shows "registry_ok (unsubscribe cfg p l st)"
proof -
  have a: "registry_ok (at_path p (Set_delete l) st)" using assms by (rule at_path_ok)
  have "registry_ok (s\<lparr> pathListeners := Map_delete p (pathListeners s) \<rparr>)"
    if "registry_ok s" for s :: listeners_state
    using that by (auto simp: registry_ok_def live_Map_delete distinct_map_filter)
  then show ?thesis
    using a by (auto simp: unsubscribe_def Let_def registry_ok_def split: option.splits)
qed

text \<open>On the registry alone, calling the same unsubscribe function again changes nothing.\<close>

lemma unsubscribe_registry_idempotent:
  "sets (unsubscribe cfg p l (unsubscribe cfg p l st)) = sets (unsubscribe cfg p l st) \<and>
   pathListeners (unsubscribe cfg p l (unsubscribe cfg p l st)) =
     pathListeners (unsubscribe cfg p l st)"
proof (cases "Map_get (pathListeners st) p")
  case None
  then show ?thesis by (simp add: unsubscribe_def at_path_def Let_def)
next
  case (Some a)
  let ?d = "(sets st)[a := Set_delete l (sets st ! a)]"
  have again: "?d[a := Set_delete l (?d ! a)] = ?d"
    by (cases "a < length (sets st)") (simp_all add: Set_delete_twice list_update_beyond)
  show ?thesis
  proof (cases "Set_size (?d ! a) = 0")
    case True
    then show ?thesis
      using Some by (simp add: unsubscribe_def at_path_def Let_def Map_get_Map_delete)
  next
    case False
    then show ?thesis
      using Some again by (simp add: unsubscribe_def at_path_def Let_def)
  qed
qed

lemma distinct_snd_key:
  "distinct (map snd xs) \<Longrightarrow> (k, v) \<in> set xs \<Longrightarrow> (k', v) \<in> set xs \<Longrightarrow> k = k'"
  by (induction xs) force+

text \<open>Unsubscribing one callback from a path leaves every other subscription in place.\<close>

lemma unsubscribe_keeps_others:
  assumes ok: "registry_ok st" and other: "g \<noteq> l \<or> q \<noteq> p"
  shows "g \<in> set (listeners_on (registry (unsubscribe cfg p l st)) q) \<longleftrightarrow>
         g \<in> set (listeners_on (registry st) q)"
proof (cases "Map_get (pathListeners st) p")
  case None
  then show ?thesis by (simp add: unsubscribe_def at_path_def Let_def listeners_on_registry)
next
  case (Some a)
  let ?d = "(sets st)[a := Set_delete l (sets st ! a)]"
  have pa: "(p, a) \<in> set (live (pathListeners st))"
    using Some unfolding Map_get_def by (rule map_of_SomeD)
  then have a: "a < length (sets st)" using ok by (force simp: registry_ok_def)
  have da: "live (?d ! a) = removeAll l (live (sets st ! a))"
    using a by (simp add: live_Set_delete)
  have elsewhere: "b \<noteq> a" if "Map_get (pathListeners st) q = Some b" "q \<noteq> p" for b
  proof
    assume "b = a"
    then have "(q, a) \<in> set (live (pathListeners st))"
      using that(1) unfolding Map_get_def by (auto dest: map_of_SomeD)
    then have "q = p"
      using pa ok unfolding registry_ok_def by (blast intro: distinct_snd_key)
    then show False using that(2) by simp
  qed
  show ?thesis
  proof (cases "q = p")
    case True
    then have "g \<noteq> l" using other by simp
    then have "g \<in> set (live (?d ! a)) \<longleftrightarrow> g \<in> set (live (sets st ! a))"
      by (simp add: da)
    moreover have "g \<notin> set (live (?d ! a))" if "Set_size (?d ! a) = 0"
      using that by (simp add: Set_size_def)
    ultimately show ?thesis
      using Some True
      by (auto simp: unsubscribe_def at_path_def Let_def listeners_on_registry Map_get_Map_delete)
  next
    case False
    show ?thesis
    proof (cases "Map_get (pathListeners st) q")
      case None
      then show ?thesis
        using Some False
        by (simp add: unsubscribe_def at_path_def Let_def listeners_on_registry Map_get_Map_delete)
    next
      case b: (Some b)
      then have "b \<noteq> a" using False by (rule elsewhere)
      then show ?thesis
        using Some False b
        by (simp add: unsubscribe_def at_path_def Let_def listeners_on_registry Map_get_Map_delete)
    qed
  qed
qed

lemmas subscribe_run_defs =
  subscribe_def unsubscribe_def at_path_def Map_get_def Map_delete_def Set_add_def Set_delete_def
  Set_size_def no_listeners_def logSubscriptionAdded_def logSubscriptionRemoved_def count_of_def
  default_monitoring_def logging_monitoring_def Let_def

lemmas notify_run_defs =
  notifyListeners_def notify_groups_def notify_key_def call_def count_render_cycle_def
  browser_def startsWith_def

lemma items_state_eq:
  "items_state =
     \<lparr> sets = [[Some 1], [Some 2], [Some 3], [Some 4], [Some 5]],
       pathListeners = [Some (''items.2'', 0), Some (''items'', 1), Some ([], 2),
         Some (''items.2.done'', 3), Some (''other'', 4)],
       stats = no_stats \<rparr>"
  by (simp add: items_state_def subscribe_run_defs)

lemma pair_state_eq:
  "pair_state = \<lparr> sets = [[Some 1, Some 2]], pathListeners = [Some (''a'', 0)], stats = no_stats \<rparr>"
  by (simp add: pair_state_def subscribe_run_defs)

lemma nested_state_eq:
  "nested_state = \<lparr> sets = [[Some 3], [Some 1, Some 2]],
     pathListeners = [Some (''a.b'', 0), Some (''a'', 1)], stats = no_stats \<rparr>"
  by (simp add: nested_state_def subscribe_run_defs)

lemma items_registry:
  "registry items_state =
     [(''items.2'', [1]), (''items'', [2]), ([], [3]), (''items.2.done'', [4]), (''other'', [5])]"
  by (simp add: items_state_eq registry_def)

lemma pair_registry: "registry pair_state = [(''a'', [1, 2])]"
  by (simp add: pair_state_eq registry_def)

lemma nested_registry: "registry nested_state = [(''a.b'', [3]), (''a'', [1, 2])]"
  by (simp add: nested_state_eq registry_def)

lemma number_not_NaN_2: "number_not_NaN ''2''"
  by (simp add: number_not_NaN_def js_trim_def js_space_def radix_literal_def
      unsigned_decimal_def dec_digit_def all_digits_def)

lemma number_not_NaN_a: "\<not> number_not_NaN ''a''"
  by (simp add: number_not_NaN_def js_trim_def js_space_def radix_literal_def
      unsigned_decimal_def dec_digit_def all_digits_def)

lemma number_not_NaN_b: "\<not> number_not_NaN ''b''"
  by (simp add: number_not_NaN_def js_trim_def js_space_def radix_literal_def
      unsigned_decimal_def dec_digit_def all_digits_def)

text \<open>The no-break space is white space to \<open>Number\<close>, which converts it to \<open>0\<close>.\<close>

lemma number_not_NaN_nbsp: "number_not_NaN [CHR 0xA0]"
  by (simp add: number_not_NaN_def js_trim_def js_space_def)

text \<open>
  Claim C1, as the code has it. In a browser environment (\<open>window\<close> defined), for a
  path \<open>P\<close> of at least one segment, a registry whose keys are distinct (it is a
  \<open>Map\<close>) and callbacks that are quiet (each returns without throwing, and
  without subscribing, unsubscribing or causing a notification while it runs),
  \<open>notifyListeners(P)\<close> comes to an end, leaves the registry as it is, and has
  called, in this order: the subscribers on \<open>P\<close>; if the last segment of \<open>P\<close> is
  a non-empty string that \<open>Number\<close> converts to a number (every array index is
  one), the subscribers on the parent path; the subscribers on every strict
  ancestor of \<open>P\<close>, nearest first and the root key last (so the array parent's
  subscribers are called a second time); the subscribers on every registered
  strict descendant of \<open>P\<close>, in registration order. A callback is called exactly
  when it is subscribed on \<open>P\<close>, on a strict ancestor or on a strict descendant
  of \<open>P\<close>.
\<close>

theorem notifyListeners_fan_out_order:
  assumes "hasWindow env" and "path \<noteq> []"
    and "distinct (map fst (registry st))"
    and "\<forall>l\<in>set (fan_out (registry st) path). body l = []"
    and "registry_size st < fuel"
  shows "notifyListeners fuel env body path st =
           Some (count_render_cycle env st,
                 Run True (exact_group (registry st) path @ array_parent_group (registry st) path @
                   ancestor_groups (registry st) path @ descendant_group (registry st) path))
         \<and> registry (count_render_cycle env st) = registry st
         \<and> (\<forall>l. l \<in> set (exact_group (registry st) path @ array_parent_group (registry st) path @
                   ancestor_groups (registry st) path @ descendant_group (registry st) path) \<longleftrightarrow>
               (\<exists>key ls. (key, ls) \<in> set (registry st) \<and> l \<in> set ls \<and>
                  (key = join_dot path \<or> ancestor_key path key \<or> descendant_key path key)))"
proof -
  have "to_first_throw body (fan_out (registry st) path)"
    using assms(4) by (rule to_first_throw_quiet)
  then have "notifyListeners fuel env body path st =
      Some (fold (step_call (monitoring env) body) (fan_out (registry st) path)
              (count_render_cycle env st, Run True []))"
    by (rule notifyListeners_run [OF assms(1) assms(5)])
  then have run: "notifyListeners fuel env body path st =
      Some (count_render_cycle env st, Run True (fan_out (registry st) path))"
    using assms(4) by (simp add: fold_step_call_quiet)
  have mem: "\<forall>l. l \<in> set (fan_out (registry st) path) \<longleftrightarrow>
      (\<exists>key ls. (key, ls) \<in> set (registry st) \<and> l \<in> set ls \<and>
         (key = join_dot path \<or> ancestor_key path key \<or> descendant_key path key))"
    using fan_out_mem [OF assms(2,3)] by blast
  show ?thesis
    using run mem unfolding fan_out_groups [OF assms(2)] by simp
qed

text \<open>
  Writing \<open>items[2]\<close> with subscribers on \<open>items.2\<close>, \<open>items\<close>, the root key,
  \<open>items.2.done\<close> and \<open>other\<close>: the subscriber on \<open>items\<close> is called twice, the one
  on \<open>other\<close> is not called.
\<close>

theorem notifyListeners_fan_out_order_witness:
  "notifyListeners 11 browser quiet [''items'', ''2''] items_state =
     Some (items_state, Run True [1, 2, 2, 3, 4])
   \<and> exact_group (registry items_state) [''items'', ''2''] = [1]
   \<and> array_parent_group (registry items_state) [''items'', ''2''] = [2]
   \<and> ancestor_groups (registry items_state) [''items'', ''2''] = [2, 3]
   \<and> descendant_group (registry items_state) [''items'', ''2''] = [4]"
proof -
  have w: "hasWindow browser" by (simp add: browser_def)
  have p: "[''items'', ''2''] \<noteq> []" by simp
  have d: "distinct (map fst (registry items_state))" by (simp add: items_registry)
  have e: "exact_group (registry items_state) [''items'', ''2''] = [1]"
    by (simp add: items_registry exact_group_def listeners_on_def)
  have a: "array_parent_group (registry items_state) [''items'', ''2''] = [2]"
    by (simp add: items_registry array_parent_group_def listeners_on_def number_not_NaN_2)
  have n: "ancestor_groups (registry items_state) [''items'', ''2''] = [2, 3]"
    by (simp add: items_registry ancestor_groups_def listeners_on_def upt_rec numeral_2_eq_2)
  have c: "descendant_group (registry items_state) [''items'', ''2''] = [4]"
    by (simp add: descendant_group_startsWith items_registry startsWith_def)
  have t: "\<forall>l\<in>set (fan_out (registry items_state) [''items'', ''2'']). quiet l = []"
    by (simp add: quiet_def)
  have f: "registry_size items_state < 11"
    by (simp add: registry_size_def items_state_eq)
  have s: "count_render_cycle browser items_state = items_state"
    by (simp add: count_render_cycle_def browser_def default_monitoring_def)
  from notifyListeners_fan_out_order [OF w p d t f] show ?thesis
    by (simp add: e a n c s)
qed

text \<open>
  Claim C1 as stated fails in four ways: without \<open>window\<close> the subscriber on the
  written path is not called; a notification on the root path (no segments) does
  not reach the subscriber on its descendant \<open>items\<close>; a callback that throws cuts
  the fan-out short; and a callback that calls the unsubscribe function of the
  next subscriber on the same path keeps that subscriber from being called.
\<close>

theorem notifyListeners_fan_out_counterexample:
  "exact_group (registry items_state) [''items''] = [2]
   \<and> notifyListeners 11 server quiet [''items''] items_state = Some (items_state, Run True [])
   \<and> descendant_key [] ''items''
   \<and> notifyListeners 11 browser quiet [] items_state = Some (items_state, Run True [3])
   \<and> exact_group (registry pair_state) [''a''] = [1, 2]
   \<and> notifyListeners 4 browser first_throws [''a''] pair_state = Some (pair_state, Run False [1])
   \<and> (\<exists>st. notifyListeners 4 browser first_unsubscribes_second [''a''] pair_state =
             Some (st, Run True [1]) \<and> registry st = [(''a'', [1])])"
proof -
  have "descendant_key [] ''items''"
    unfolding descendant_key_def by (rule exI [of _ "[''items'']"]) simp
  moreover have "notifyListeners 11 server quiet [''items''] items_state =
      Some (items_state, Run True [])"
    by (simp add: notifyListeners_def eval_nat_numeral notify_groups_def server_def)
  moreover have "notifyListeners 11 browser quiet [] items_state = Some (items_state, Run True [3])"
    by (simp add: notify_run_defs eval_nat_numeral items_state_eq default_monitoring_def
        Map_get_def quiet_def)
  moreover have "notifyListeners 4 browser first_throws [''a''] pair_state =
      Some (pair_state, Run False [1])"
    by (simp add: notify_run_defs eval_nat_numeral pair_state_eq default_monitoring_def
        Map_get_def first_throws_def number_not_NaN_a)
  moreover have "notifyListeners 4 browser first_unsubscribes_second [''a''] pair_state =
      Some (\<lparr> sets = [[Some 1, None]], pathListeners = [Some (''a'', 0)], stats = no_stats \<rparr>,
            Run True [1])"
    by (simp add: notify_run_defs eval_nat_numeral pair_state_eq default_monitoring_def
        Map_get_def first_unsubscribes_second_def unsubscribe_def at_path_def Set_delete_def
        Set_size_def logSubscriptionRemoved_def number_not_NaN_a)
  then have "\<exists>st. notifyListeners 4 browser first_unsubscribes_second [''a''] pair_state =
             Some (st, Run True [1]) \<and> registry st = [(''a'', [1])]"
    by (simp add: registry_def)
  ultimately show ?thesis
    by (simp add: items_registry pair_registry exact_group_def listeners_on_def)
qed

text \<open>
  Claim C2, as the code has it. Nothing in \<open>notifyListeners\<close> catches an exception
  of a callback: in a browser environment, when the callbacks of the fan-out
  before \<open>l\<close> are quiet and \<open>l\<close> throws before it has caused a notification,
  \<open>notifyListeners\<close> has called the callbacks before \<open>l\<close> and \<open>l\<close> itself, the
  exception leaves \<open>notifyListeners\<close>, and no callback after \<open>l\<close> is called; the
  registry is as \<open>l\<close> left it when it threw.
\<close>

theorem notifyListeners_throw_propagates:
  assumes "hasWindow env"
    and "fan_out (registry st) path = xs @ l # ys"
    and "\<forall>x\<in>set xs. body x = []" and "throws_first (body l)"
    and "registry_size st < fuel"
  shows "notifyListeners fuel env body path st =
           Some (registry_effects (monitoring env) (body l) (count_render_cycle env st),
                 Run False (xs @ [l]))"
proof -
  have "to_first_throw body (fan_out (registry st) path)"
    unfolding assms(2) using assms(3,4) by (rule to_first_throw_at_throw)
  then have "notifyListeners fuel env body path st =
      Some (fold (step_call (monitoring env) body) (fan_out (registry st) path)
              (count_render_cycle env st, Run True []))"
    by (rule notifyListeners_run [OF assms(1) assms(5)])
  moreover have "body l \<noteq> []" using assms(4) by auto
  with assms(3) have "fold (step_call (monitoring env) body) (xs @ l # ys)
      (count_render_cycle env st, Run True []) =
      (registry_effects (monitoring env) (body l) (count_render_cycle env st),
       Run False ([] @ xs @ [l]))"
    by (rule fold_step_call_throw)
  ultimately show ?thesis by (simp add: assms(2))
qed

text \<open>
  A write to \<open>a.b\<close> with a quiet subscriber on \<open>a.b\<close> and two subscribers on \<open>a\<close>,
  the first of which calls the unsubscribe function of the second and throws.
\<close>

theorem notifyListeners_throw_propagates_witness:
  "fan_out (registry nested_state) [''a'', ''b''] = [3] @ 1 # [2]
   \<and> throws_first (unsubscribes_and_throws 1)
   \<and> notifyListeners 6 browser unsubscribes_and_throws [''a'', ''b''] nested_state =
       Some (unsubscribe default_monitoring ''a'' 2 nested_state, Run False ([3] @ [1]))
   \<and> registry (unsubscribe default_monitoring ''a'' 2 nested_state) =
       [(''a.b'', [3]), (''a'', [1])]"
proof -
  have w: "hasWindow browser" by (simp add: browser_def)
  have f: "fan_out (registry nested_state) [''a'', ''b''] = [3] @ 1 # [2]"
    by (simp add: fan_out_def nested_registry exact_group_def listeners_on_def
        array_parent_group_def ancestor_groups_def startsWith_def number_not_NaN_b
        upt_rec numeral_2_eq_2)
  have x: "\<forall>x\<in>set [3]. unsubscribes_and_throws x = []"
    by (simp add: unsubscribes_and_throws_def)
  have t: "throws_first (unsubscribes_and_throws 1)"
    by (simp add: unsubscribes_and_throws_def)
  have z: "registry_size nested_state < 6" by (simp add: registry_size_def nested_state_eq)
  have s: "count_render_cycle browser nested_state = nested_state"
    by (simp add: count_render_cycle_def browser_def default_monitoring_def)
  have e: "registry_effects (monitoring browser) (unsubscribes_and_throws 1) nested_state =
      unsubscribe default_monitoring ''a'' 2 nested_state"
    by (simp add: unsubscribes_and_throws_def browser_def)
  have r: "registry (unsubscribe default_monitoring ''a'' 2 nested_state) =
       [(''a.b'', [3]), (''a'', [1])]"
    by (simp add: nested_state_eq registry_def unsubscribe_def at_path_def Map_get_def
        Set_delete_def Set_size_def logSubscriptionRemoved_def default_monitoring_def Let_def)
  from notifyListeners_throw_propagates [OF w f x t z] f t r e show ?thesis by (simp add: s)
qed

text \<open>
  Two subscribers on \<open>a\<close>, the first of which throws: the second is due in the
  fan-out of a write to \<open>a\<close> and is never called.
\<close>

theorem notifyListeners_isolation_counterexample:
  "2 \<in> set (fan_out (registry pair_state) [''a''])
   \<and> first_throws 2 = []
   \<and> notifyListeners 4 browser first_throws [''a''] pair_state = Some (pair_state, Run False [1])"
proof -
  have "notifyListeners 4 browser first_throws [''a''] pair_state =
      Some (pair_state, Run False [1])"
    by (simp add: notify_run_defs eval_nat_numeral pair_state_eq default_monitoring_def
        Map_get_def first_throws_def number_not_NaN_a)
  then show ?thesis
    by (simp add: fan_out_def pair_registry exact_group_def listeners_on_def first_throws_def)
qed

text \<open>
  Claim C10. Where \<open>window\<close> is undefined, \<open>notifyListeners\<close> returns at once for
  every path: no callback is called and the registry and the statistics are as
  they were.
\<close>

theorem notifyListeners_without_window:
  "\<not> hasWindow env \<Longrightarrow> notifyListeners fuel env body path st = Some (st, Run True [])"
  by (cases fuel) (simp_all add: notifyListeners_def notify_groups_def)

theorem notifyListeners_without_window_witness:
  "\<not> hasWindow server
   \<and> exact_group (registry items_state) [''items'', ''2''] = [1]
   \<and> notifyListeners 0 server first_throws [''items'', ''2''] items_state =
       Some (items_state, Run True [])"
proof -
  have w: "\<not> hasWindow server" by (simp add: server_def)
  from notifyListeners_without_window [OF w] w show ?thesis
    by (simp add: items_registry exact_group_def listeners_on_def)
qed

text \<open>
  Claim C9 at its failing input. With subscription logging on, two callbacks
  subscribe on \<open>a\<close> and the first one's unsubscribe function is called twice.
  The registry is the same after the second call as after the first, with the
  second callback still subscribed, but the second call decrements the counters
  again: no subscription is counted as active, and none on \<open>a\<close>, while one is
  registered.
\<close>

theorem unsubscribe_twice_changes_counters:
  "registry (unsubscribe logging_monitoring ''a'' 1 shared_path_state) = [(''a'', [2])]
   \<and> registry (unsubscribe logging_monitoring ''a'' 1
        (unsubscribe logging_monitoring ''a'' 1 shared_path_state)) = [(''a'', [2])]
   \<and> activeSubscriptions (stats
        (unsubscribe logging_monitoring ''a'' 1 shared_path_state)) = 1
   \<and> activeSubscriptions (stats (unsubscribe logging_monitoring ''a'' 1
        (unsubscribe logging_monitoring ''a'' 1 shared_path_state))) = 0
   \<and> count_of (pathSubscriptionCounts (stats (unsubscribe logging_monitoring ''a'' 1
        (unsubscribe logging_monitoring ''a'' 1 shared_path_state)))) ''a'' = 0"
  by (simp add: shared_path_state_def subscribe_run_defs no_stats_def registry_def)

section \<open>Persisted paths: proofs\<close>

lemma split_dot_nonempty: "split_dot s \<noteq> []"
  by (induction s) (auto split: list.splits)

lemma join_split_dot: "join_dot (split_dot s) = s"
proof (induction s)
  case Nil then show ?case by simp
next
  case (Cons c cs)
  show ?case
  proof (cases "split_dot cs")
    case Nil then show ?thesis using split_dot_nonempty by blast
  next
    case (Cons t ts)
    then show ?thesis using Cons.IH by (cases ts) auto
  qed
qed

lemma split_dot_append: "split_dot (a @ ''.'' @ r) = split_dot a @ split_dot r"
proof (induction a)
  case Nil then show ?case by simp
next
  case (Cons c cs)
  then show ?case
    using split_dot_nonempty [of cs] by (auto split: list.splits)
qed

lemma join_take_drop:
  assumes "0 < i" and "i < length segs"
  shows "join_dot segs = join_dot (take i segs) @ ''.'' @ join_dot (drop i segs)"
proof -
  have "take i segs \<noteq> []" "drop i segs \<noteq> []" using assms by auto
  then have "join_dot (take i segs @ drop i segs) =
      join_dot (take i segs) @ ''.'' @ join_dot (drop i segs)"
    by (rule join_dot_append)
  then show ?thesis by simp
qed

lemma segment_prefix_iff:
  "(\<exists>i. 1 \<le> i \<and> i \<le> length (split_dot p) \<and> b = join_dot (take i (split_dot p))) \<longleftrightarrow>
   (b = p \<or> dot_ancestor b p)"
proof
  assume "\<exists>i. 1 \<le> i \<and> i \<le> length (split_dot p) \<and> b = join_dot (take i (split_dot p))"
  then obtain i where i: "1 \<le> i" "i \<le> length (split_dot p)"
    and b: "b = join_dot (take i (split_dot p))" by blast
  show "b = p \<or> dot_ancestor b p"
  proof (cases "i = length (split_dot p)")
    case True
    then show ?thesis using b by (simp add: join_split_dot)
  next
    case False
    then have "join_dot (split_dot p) = b @ ''.'' @ join_dot (drop i (split_dot p))"
      using i b join_take_drop [of i "split_dot p"] by simp
    then show ?thesis
      unfolding dot_ancestor_def join_split_dot by blast
  qed
next
  assume "b = p \<or> dot_ancestor b p"
  then show "\<exists>i. 1 \<le> i \<and> i \<le> length (split_dot p) \<and> b = join_dot (take i (split_dot p))"
  proof
    assume "b = p"
    then have "b = join_dot (take (length (split_dot p)) (split_dot p))"
      by (simp add: join_split_dot)
    moreover have "1 \<le> length (split_dot p)"
      using split_dot_nonempty [of p] by (cases "split_dot p") auto
    ultimately show ?thesis by blast
  next
    assume "dot_ancestor b p"
    then obtain r where p: "p = b @ ''.'' @ r" unfolding dot_ancestor_def by blast
    have "split_dot p = split_dot b @ split_dot r"
      unfolding p by (rule split_dot_append)
    then have "b = join_dot (take (length (split_dot b)) (split_dot p))"
      by (simp add: join_split_dot)
    moreover have "1 \<le> length (split_dot b)"
      using split_dot_nonempty [of b] by (cases "split_dot b") auto
    moreover have "length (split_dot b) \<le> length (split_dot p)"
      using \<open>split_dot p = split_dot b @ split_dot r\<close> by simp
    ultimately show ?thesis by blast
  qed
qed

lemma blacklisted_iff:
  "blacklisted cfg p \<longleftrightarrow> (\<exists>b\<in>set (blacklist cfg). b = p \<or> dot_ancestor b p)"
proof -
  have "blacklisted cfg p \<longleftrightarrow>
      (\<exists>i\<in>{1..<Suc (length (split_dot p))}.
         \<exists>b\<in>set (blacklist cfg). b = join_dot (take i (split_dot p)))"
    by (simp only: blacklisted_def Let_def list_ex_iff set_upt)
  also have "\<dots> \<longleftrightarrow>
      (\<exists>b\<in>set (blacklist cfg).
         \<exists>i. 1 \<le> i \<and> i \<le> length (split_dot p) \<and> b = join_dot (take i (split_dot p)))"
    by (simp only: Bex_def atLeastLessThan_iff less_Suc_eq_le) blast
  finally show ?thesis
    by (simp only: segment_prefix_iff)
qed

lemma startsWith_dot_ancestor: "startsWith p (a @ ''.'') \<longleftrightarrow> dot_ancestor a p"
  by (simp add: startsWith_iff dot_ancestor_def)


lemma shouldPersistPath_iff:
  "shouldPersistPath cfg p \<longleftrightarrow>
     pers_enabled cfg \<and>
     \<not> (\<exists>b\<in>set (blacklist cfg). b = p \<or> dot_ancestor b p) \<and>
     (allow_list cfg = [] \<or>
      (\<exists>a\<in>set (allow_list cfg). p = a \<or> dot_ancestor a p \<or> dot_ancestor p a))"
  by (auto simp: shouldPersistPath_def blacklisted_iff allow_list_def list_ex_iff
      startsWith_dot_ancestor split: option.splits)

lemma split_user_secret: "split_dot ''user.secret'' = [''user'', ''secret'']"
  by simp

lemma split_user_name: "split_dot ''user.name'' = [''user'', ''name'']"
  by simp

lemma user_secret_blacklisted:
  "blacklisted (cfg\<lparr> paths := Some [''user''], blacklist := [''user.secret''] \<rparr>) ''user.secret''"
  unfolding blacklisted_def Let_def split_user_secret by (simp add: upt_rec)

lemma user_name_not_blacklisted:
  "\<not> blacklisted (cfg\<lparr> paths := Some [''user''], blacklist := [''user.secret''] \<rparr>) ''user.name''"
  unfolding blacklisted_def Let_def split_user_name by (simp add: upt_rec)

text \<open>
  Claim C3, as the code has it. \<open>shouldPersistPath(p)\<close> is false when persistence
  is disabled; false when \<open>p\<close> or a dot-prefix ancestor of \<open>p\<close> is a blacklist
  entry; otherwise true when no allow-list is configured (\<open>paths\<close> undefined or
  empty); otherwise true exactly when \<open>p\<close> equals, is a strict descendant of, or is
  a strict ancestor of an allow-listed path. With allow-list \<open>user\<close> and blacklist
  \<open>user.secret\<close>, a write to \<open>user.secret\<close> never changes the batch, and a write
  to \<open>user.name\<close> made while persistence is enabled, after hydration has completed
  and outside a hydration, adds the root \<open>user\<close>.
\<close>

theorem shouldPersistPath_allow_and_blacklist:
  "(shouldPersistPath cfg p \<longleftrightarrow>
      pers_enabled cfg \<and>
      \<not> (\<exists>b\<in>set (blacklist cfg). b = p \<or> dot_ancestor b p) \<and>
      (allow_list cfg = [] \<or>
       (\<exists>a\<in>set (allow_list cfg). p = a \<or> dot_ancestor a p \<or> dot_ancestor p a)))
   \<and> roots (addToPersistenceBatch (cfg\<lparr> paths := Some [''user''], blacklist := [''user.secret''] \<rparr>)
        [''user'', ''secret''] st) = roots st
   \<and> roots (addToPersistenceBatch
        (cfg\<lparr> pers_enabled := True, paths := Some [''user''], blacklist := [''user.secret''] \<rparr>)
        [''user'', ''name''] (st\<lparr> isHydrating := False, hasHydrated := True \<rparr>)) =
      set_add ''user'' (roots st)"
proof -
  have secret: "roots (addToPersistenceBatch
      (cfg\<lparr> paths := Some [''user''], blacklist := [''user.secret''] \<rparr>) [''user'', ''secret''] st) =
      roots st"
    using user_secret_blacklisted [of cfg]
    by (simp add: addToPersistenceBatch_def shouldPersistPath_def)
  have "\<not> blacklisted
      (cfg\<lparr> pers_enabled := True, paths := Some [''user''], blacklist := [''user.secret''] \<rparr>)
      ''user.name''"
    using user_name_not_blacklisted [of "cfg\<lparr> pers_enabled := True \<rparr>"] by simp
  then have name: "roots (addToPersistenceBatch
      (cfg\<lparr> pers_enabled := True, paths := Some [''user''], blacklist := [''user.secret''] \<rparr>)
      [''user'', ''name''] (st\<lparr> isHydrating := False, hasHydrated := True \<rparr>)) =
      set_add ''user'' (roots st)"
    by (simp add: addToPersistenceBatch_def shouldPersistPath_def startsWith_def
        getPersistenceRoot_def schedulePersistenceBatch_def Let_def split: option.splits)
  show ?thesis
    using secret name shouldPersistPath_iff [of cfg p] by blast
qed

theorem shouldPersistPath_allow_and_blacklist_witness:
  "\<not> shouldPersistPath user_config ''user.secret''
   \<and> shouldPersistPath user_config ''user.name''
   \<and> roots (addToPersistenceBatch user_config [''user'', ''secret''] hydrated) = []
   \<and> roots (addToPersistenceBatch user_config [''user'', ''name''] hydrated) = [''user'']"
proof -
  have c: "user_config\<lparr> pers_enabled := True, paths := Some [''user''],
      blacklist := [''user.secret''] \<rparr> = user_config"
    "user_config\<lparr> paths := Some [''user''], blacklist := [''user.secret''] \<rparr> = user_config"
    by (simp_all add: user_config_def)
  have s: "hydrated\<lparr> isHydrating := False, hasHydrated := True \<rparr> = hydrated"
    by (simp add: hydrated_def module_loaded_def)
  have d: "dot_ancestor ''user'' ''user.name''" "dot_ancestor ''user'' ''user.secret''"
    unfolding dot_ancestor_def by simp_all
  have n: "\<not> dot_ancestor ''user.secret'' ''user.name''"
    unfolding dot_ancestor_def by simp
  have r: "roots hydrated = []" by (simp add: hydrated_def module_loaded_def)
  from shouldPersistPath_allow_and_blacklist [of user_config "''user.secret''" hydrated]
    shouldPersistPath_allow_and_blacklist [of user_config "''user.name''" hydrated]
  show ?thesis
    unfolding c s r using d n
    by (simp add: user_config_def allow_list_def set_add_def)
qed

text \<open>
  Claim C3 as stated fails at the gate of \<open>addToPersistenceBatch\<close>: with the same
  lists and persistence enabled, a write to \<open>user.name\<close> is not added before the
  first hydration has completed, nor during a hydration.
\<close>

theorem addToPersistenceBatch_gate_counterexample:
  "shouldPersistPath user_config ''user.name''
   \<and> roots (addToPersistenceBatch user_config [''user'', ''name''] module_loaded) = []
   \<and> roots (addToPersistenceBatch user_config [''user'', ''name'']
        (hydrated\<lparr> isHydrating := True \<rparr>)) = []"
proof -
  have "\<not> blacklisted user_config ''user.name''"
    using user_name_not_blacklisted [of user_config] by (simp add: user_config_def)
  then show ?thesis
    by (simp add: addToPersistenceBatch_def shouldPersistPath_def user_config_def
        module_loaded_def hydrated_def startsWith_def)
qed


lemma dot_ancestor_trans: "dot_ancestor a b \<Longrightarrow> dot_ancestor b c \<Longrightarrow> dot_ancestor a c"
  unfolding dot_ancestor_def by auto

lemma first_segment_prefix: "first_segment p = p \<or> dot_ancestor (first_segment p) p"
proof -
  have "first_segment p = join_dot (take 1 (split_dot p))"
    using split_dot_nonempty [of p]
    by (cases "split_dot p") (simp_all add: first_segment_def)
  moreover have "1 \<le> length (split_dot p)"
    using split_dot_nonempty [of p] by (cases "split_dot p") simp_all
  ultimately have "\<exists>i. 1 \<le> i \<and> i \<le> length (split_dot p) \<and>
      first_segment p = join_dot (take i (split_dot p))"
    by blast
  then show ?thesis by (simp only: segment_prefix_iff)
qed

lemma getPersistenceRoot_prefix:
  "getPersistenceRoot cfg p = p \<or> dot_ancestor (getPersistenceRoot cfg p) p"
proof (cases "paths cfg")
  case None
  then show ?thesis using first_segment_prefix [of p] by (simp add: getPersistenceRoot_def)
next
  case (Some ps)
  show ?thesis
  proof (cases "find (\<lambda>c. p = c \<or> startsWith p (c @ ''.'')) ps")
    case None
    then show ?thesis using Some first_segment_prefix [of p] by (simp add: getPersistenceRoot_def)
  next
    case found: (Some c)
    then have "p = c \<or> startsWith p (c @ ''.'')" by (auto simp: find_Some_iff)
    then have "c = p \<or> dot_ancestor c p" by (auto simp: startsWith_dot_ancestor)
    moreover have "getPersistenceRoot cfg p = c" using Some found by (simp add: getPersistenceRoot_def)
    ultimately show ?thesis by simp
  qed
qed

text \<open>The Persistence Root of a path that is persisted is persisted itself.\<close>

lemma getPersistenceRoot_persisted:
  assumes ok: "shouldPersistPath cfg p"
  shows "shouldPersistPath cfg (getPersistenceRoot cfg p)"
proof -
  define r where "r = getPersistenceRoot cfg p"
  have pre: "r = p \<or> dot_ancestor r p" unfolding r_def by (rule getPersistenceRoot_prefix)
  have all: "pers_enabled cfg \<and>
     \<not> (\<exists>b\<in>set (blacklist cfg). b = p \<or> dot_ancestor b p) \<and>
     (allow_list cfg = [] \<or>
      (\<exists>a\<in>set (allow_list cfg). p = a \<or> dot_ancestor a p \<or> dot_ancestor p a))"
    using ok unfolding shouldPersistPath_iff .
  then have en: "pers_enabled cfg"
    and nb: "\<not> (\<exists>b\<in>set (blacklist cfg). b = p \<or> dot_ancestor b p)"
    and al: "allow_list cfg = [] \<or>
      (\<exists>a\<in>set (allow_list cfg). p = a \<or> dot_ancestor a p \<or> dot_ancestor p a)"
    by (rule conjunct1, rule conjunct2 [THEN conjunct1], rule conjunct2 [THEN conjunct2])
  have up: "b = p \<or> dot_ancestor b p" if "b = r \<or> dot_ancestor b r" for b
  proof (cases "r = p")
    case True then show ?thesis using that by simp
  next
    case False
    then have rp: "dot_ancestor r p" using pre by simp
    show ?thesis
    proof (cases "b = r")
      case True then show ?thesis using rp by simp
    next
      case False
      then have "dot_ancestor b r" using that by simp
      then have "dot_ancestor b p" using rp by (rule dot_ancestor_trans)
      then show ?thesis by simp
    qed
  qed
  have nb': "\<not> (\<exists>b\<in>set (blacklist cfg). b = r \<or> dot_ancestor b r)"
  proof
    assume "\<exists>b\<in>set (blacklist cfg). b = r \<or> dot_ancestor b r"
    then obtain b where b: "b \<in> set (blacklist cfg)" "b = r \<or> dot_ancestor b r" by blast
    from up [OF b(2)] b(1) nb show False by blast
  qed
  have al': "allow_list cfg = [] \<or>
      (\<exists>a\<in>set (allow_list cfg). r = a \<or> dot_ancestor a r \<or> dot_ancestor r a)"
  proof (cases "allow_list cfg = []")
    case True then show ?thesis by simp
  next
    case False
    then obtain ps where ps: "paths cfg = Some ps" "allow_list cfg = ps"
      by (cases "paths cfg") (simp_all add: allow_list_def)
    show ?thesis
    proof (cases "find (\<lambda>c. p = c \<or> startsWith p (c @ ''.'')) ps")
      case None
      then have none: "\<And>a. a \<in> set ps \<Longrightarrow> \<not> (p = a \<or> dot_ancestor a p)"
        by (simp add: find_None_iff startsWith_dot_ancestor)
      from al False ps obtain a where a: "a \<in> set ps"
        and c: "p = a \<or> dot_ancestor a p \<or> dot_ancestor p a"
        by auto
      from none [OF a] c have pa: "dot_ancestor p a" by simp
      have "dot_ancestor r a"
      proof (cases "r = p")
        case True then show ?thesis using pa by simp
      next
        case False
        then have "dot_ancestor r p" using pre by simp
        then show ?thesis using pa by (rule dot_ancestor_trans)
      qed
      then have "\<exists>a\<in>set ps. r = a \<or> dot_ancestor a r \<or> dot_ancestor r a"
        using a by (intro bexI [of _ a]) simp_all
      then show ?thesis by (simp add: ps)
    next
      case (Some c)
      then have "c \<in> set ps" unfolding find_Some_iff by (metis nth_mem)
      moreover have "r = c" using ps Some by (simp add: r_def getPersistenceRoot_def)
      ultimately have "\<exists>a\<in>set ps. r = a \<or> dot_ancestor a r \<or> dot_ancestor r a"
        by (intro bexI [of _ c]) simp_all
      then show ?thesis by (simp add: ps)
    qed
  qed
  have "shouldPersistPath cfg r"
    unfolding shouldPersistPath_iff by (intro conjI en nb' al')
  then show ?thesis by (simp only: r_def)
qed

section \<open>Dependency tracking: proofs\<close>

lemma fold_trackPathAccess_capture:
  assumes "isTracking st" and "skipTrackingDepth st = 0"
  shows "currentPath (fold (trackPathAccess n) ps st) =
           currentPath st @ map last (filter (recordable n) ps)
         \<and> isTracking (fold (trackPathAccess n) ps st)
         \<and> skipTrackingDepth (fold (trackPathAccess n) ps st) = 0"
  using assms
proof (induction ps arbitrary: st)
  case Nil then show ?case by simp
next
  case (Cons p ps)
  have "isTracking (trackPathAccess n p st)" "skipTrackingDepth (trackPathAccess n p st) = 0"
    using Cons.prems by (simp_all add: trackPathAccess_def)
  from Cons.IH [OF this] show ?case
    using Cons.prems by (simp add: trackPathAccess_def recordable_def)
qed

text \<open>
  Claim C8, as the code has it. For a selector \<open>f\<close> that returns, \<open>track(f)\<close> turns
  tracking on, empties the capture buffer and resets the skip counter, runs \<open>f\<close>
  once on that state, turns tracking off, empties the buffer again, and returns
  the result of \<open>f\<close> with the segments that were in the buffer and are shorter
  than 100 characters; for a selector that only reads paths these are the last
  segments of the paths read, in order. \<open>recordRead(path)\<close> changes nothing
  whenever tracking is off or the skip counter is positive.
\<close>

theorem trackDependencies_returns_capture:
  "(selector (st\<lparr> isTracking := True, currentPath := [], skipTrackingDepth := 0 \<rparr>) = (Normal v, st2) \<longrightarrow>
      trackDependencies selector st =
        (Normal (v, filter (\<lambda>s. s \<noteq> [] \<and> length s < 100) (currentPath st2)),
         st2\<lparr> isTracking := False, currentPath := [] \<rparr>))
   \<and> fst (trackDependencies (reading n ps v) st) =
        Normal (v, filter (\<lambda>s. length s < 100) (map last (filter (recordable n) ps)))
   \<and> (\<not> isTracking st \<or> 0 < skipTrackingDepth st \<longrightarrow> trackPathAccess n path st = st)"
proof -
  let ?st1 = "st\<lparr> isTracking := True, currentPath := [], skipTrackingDepth := 0 \<rparr>"
  have cap: "currentPath (fold (trackPathAccess n) ps ?st1) = map last (filter (recordable n) ps)"
    using fold_trackPathAccess_capture [of ?st1 n ps] by simp
  have "filter (\<lambda>s. s \<noteq> [] \<and> length s < 100) (map last (filter (recordable n) ps)) =
        filter (\<lambda>s. length s < 100) (map last (filter (recordable n) ps))"
    by (rule filter_cong) (auto simp: recordable_def)
  then have reads: "fst (trackDependencies (reading n ps v) st) =
        Normal (v, filter (\<lambda>s. length s < 100) (map last (filter (recordable n) ps)))"
    by (simp add: trackDependencies_def reading_def Let_def cap)
  show ?thesis
    using reads by (simp add: trackDependencies_def Let_def trackPathAccess_def)
qed


theorem trackDependencies_returns_capture_witness:
  "reading 20 [[''user''], [''user'', ''name'']] (7::nat)
     (tracker_loaded\<lparr> isTracking := True, currentPath := [], skipTrackingDepth := 0 \<rparr>) =
     (Normal 7, tracker_loaded\<lparr> isTracking := True, currentPath := [''user'', ''name''],
        usage := no_paths\<lparr> accessedPaths := [''user'', ''user.name''],
                              selectorPaths := [''user'', ''user.name''] \<rparr> \<rparr>)
   \<and> trackDependencies (reading 20 [[''user''], [''user'', ''name'']] (7::nat)) tracker_loaded =
     (Normal (7, [''user'', ''name'']),
      tracker_loaded\<lparr> usage := no_paths\<lparr> accessedPaths := [''user'', ''user.name''],
                              selectorPaths := [''user'', ''user.name''] \<rparr> \<rparr>)
   \<and> \<not> isTracking tracker_loaded
   \<and> trackPathAccess 20 [''user''] tracker_loaded = tracker_loaded"
proof -
  have r: "reading 20 [[''user''], [''user'', ''name'']] (7::nat)
     (tracker_loaded\<lparr> isTracking := True, currentPath := [], skipTrackingDepth := 0 \<rparr>) =
     (Normal 7, tracker_loaded\<lparr> isTracking := True, currentPath := [''user'', ''name''],
        usage := no_paths\<lparr> accessedPaths := [''user'', ''user.name''],
                              selectorPaths := [''user'', ''user.name''] \<rparr> \<rparr>)"
    by (simp add: reading_def trackPathAccess_def tracker_loaded_def no_paths_def set_add_def)
  have n: "\<not> isTracking tracker_loaded" by (simp add: tracker_loaded_def)
  from trackDependencies_returns_capture
    [of "reading 20 [[''user''], [''user'', ''name'']] (7::nat)" tracker_loaded 7 _ 20 "[]" "[''user'']"]
    r n
  show ?thesis by (simp add: tracker_loaded_def)
qed

text \<open>
  Claim C8 as stated fails in three ways: a captured segment of 100 characters
  is not returned; with the selector that throws at once, \<open>track\<close> does not exit
  tracking mode; and after that selector has thrown inside \<open>track\<close> inside
  \<open>skipTracking\<close> the skip counter is \<open>-1\<close>, not zero, with tracking on, and a
  read is recorded.
\<close>

theorem trackDependencies_counterexample:
  "currentPath (snd (reading 20 [[long_name]] (0::nat) (tracker_loaded\<lparr> isTracking := True \<rparr>))) =
     [long_name]
   \<and> fst (trackDependencies (reading 20 [[long_name]] (0::nat)) tracker_loaded) = Normal (0, [])
   \<and> fst (trackDependencies (throwing :: nat selector) tracker_loaded) = Abrupt
   \<and> isTracking (snd (trackDependencies (throwing :: nat selector) tracker_loaded))
   \<and> isTracking (snd (skipTracking (trackDependencies (throwing :: nat selector)) tracker_loaded))
   \<and> skipTrackingDepth (snd (skipTracking (trackDependencies (throwing :: nat selector)) tracker_loaded)) = - 1
   \<and> currentPath (trackPathAccess 20 [''a'']
        (snd (skipTracking (trackDependencies (throwing :: nat selector)) tracker_loaded))) = [''a'']"
  by (simp add: reading_def trackPathAccess_def tracker_loaded_def long_name_def
      trackDependencies_def throwing_def skipTracking_def Let_def)

section \<open>Wrapper cache and recency index: proofs\<close>

lemma find_index_Some:
  "find_index P xs = Some i \<Longrightarrow> i < length xs \<and> P (xs ! i)"
  by (induction xs arbitrary: i) (auto split: if_splits)

lemma find_index_None: "find_index P xs = None \<longleftrightarrow> (\<forall>x\<in>set xs. \<not> P x)"
  by (induction xs) auto

lemma find_index_mem: "k \<in> set xs \<Longrightarrow> \<exists>i. find_index (\<lambda>x. x = k) xs = Some i"
  using find_index_None [of "\<lambda>x. x = k" xs] by (cases "find_index (\<lambda>x. x = k) xs") auto

lemma scan_oldest_bound:
  "oldestIndex < i \<Longrightarrow> scan_oldest ts i oldestIndex oldestTime < i + length ts"
proof (induction ts arbitrary: i oldestIndex oldestTime)
  case Nil then show ?case by simp
next
  case (Cons t ts)
  show ?case
    using Cons.IH [of i "Suc i" t] Cons.IH [of oldestIndex "Suc i" oldestTime] Cons.prems
    by auto
qed

lemma oldest_index_bound: "ts \<noteq> [] \<Longrightarrow> oldest_index ts < length ts"
  using scan_oldest_bound [of 0 1] by (cases ts) (auto simp: oldest_index_def)

lemma scan_oldest_min:
  assumes "length pre = i" and "oldestIndex < i" and "pre ! oldestIndex = oldestTime"
    and "\<forall>t\<in>set pre. oldestTime \<le> t"
  shows "\<forall>t\<in>set (pre @ ts). (pre @ ts) ! scan_oldest ts i oldestIndex oldestTime \<le> t"
  using assms
proof (induction ts arbitrary: pre i oldestIndex oldestTime)
  case Nil
  then show ?case by (simp add: nth_append)
next
  case (Cons t ts)
  show ?case
  proof (cases "t < oldestTime")
    case True
    have "\<forall>x\<in>set ((pre @ [t]) @ ts). ((pre @ [t]) @ ts) ! scan_oldest ts (Suc i) i t \<le> x"
      using Cons.prems True by (intro Cons.IH) (auto simp: nth_append)
    then show ?thesis using True by simp
  next
    case False
    have "\<forall>x\<in>set ((pre @ [t]) @ ts).
        ((pre @ [t]) @ ts) ! scan_oldest ts (Suc i) oldestIndex oldestTime \<le> x"
      using Cons.prems False by (intro Cons.IH) (auto simp: nth_append)
    then show ?thesis using False by simp
  qed
qed

text \<open>\<open>evictOldest\<close> picks an entry whose timestamp is the smallest.\<close>

lemma oldest_index_min: "\<forall>t\<in>set ts. ts ! oldest_index ts \<le> t"
proof (cases ts)
  case Nil then show ?thesis by simp
next
  case (Cons t0 rest)
  have "\<forall>t\<in>set ([t0] @ rest). ([t0] @ rest) ! scan_oldest rest 1 0 t0 \<le> t"
    by (rule scan_oldest_min) simp_all
  then show ?thesis using Cons by (simp add: oldest_index_def)
qed

lemma length_splice1: "i < length xs \<Longrightarrow> length (splice1 i xs) = length xs - 1"
  by (auto simp: splice1_def)

lemma set_splice1: "set (splice1 i xs) \<subseteq> set xs"
  by (auto simp: splice1_def dest: in_set_takeD in_set_dropD)

lemma splice1_keeps:
  assumes "i < length xs" and "k \<in> set xs" and "k \<noteq> xs ! i"
  shows "k \<in> set (splice1 i xs)"
proof -
  obtain j where j: "j < length xs" "xs ! j = k" using assms(2) by (auto simp: in_set_conv_nth)
  then have "j \<noteq> i" using assms(3) by auto
  then consider "j < i" | "i < j" by linarith
  then show ?thesis
  proof cases
    case 1
    then have "k \<in> set (take i xs)" using j by (auto simp: in_set_conv_nth)
    then show ?thesis by (simp add: splice1_def)
  next
    case 2
    then obtain d where "j = Suc i + d" by (metis Suc_leI le_Suc_ex)
    then have "drop (Suc i) xs ! d = k" "d < length (drop (Suc i) xs)" using j by auto
    then have "k \<in> set (drop (Suc i) xs)" by (metis nth_mem)
    then show ?thesis by (simp add: splice1_def)
  qed
qed

text \<open>One eviction removes one entry from the index and the same key from the cache.\<close>

lemma evictOldest_index:
  assumes "lru_keys st \<noteq> []" and "length (lru_timestamp st) = length (lru_keys st)"
  shows "length (lru_keys (evictOldest st)) = length (lru_keys st) - 1"
    and "length (lru_timestamp (evictOldest st)) = length (lru_keys (evictOldest st))"
    and "lru_keys (evictOldest st) = splice1 (oldest_index (lru_timestamp st)) (lru_keys st)"
    and "proxyCache (evictOldest st) =
           (proxyCache st)(lru_keys st ! oldest_index (lru_timestamp st) := None)"
    and "lru_maxSize (evictOldest st) = lru_maxSize st"
proof -
  have "lru_timestamp st \<noteq> []" using assms by (metis length_0_conv)
  then have b: "oldest_index (lru_timestamp st) < length (lru_keys st)"
    using assms(2) oldest_index_bound [of "lru_timestamp st"] by simp
  show "length (lru_keys (evictOldest st)) = length (lru_keys st) - 1"
    using assms b by (simp add: evictOldest_def Let_def length_splice1)
  show "length (lru_timestamp (evictOldest st)) = length (lru_keys (evictOldest st))"
    using assms b by (simp add: evictOldest_def Let_def length_splice1)
  show "lru_keys (evictOldest st) = splice1 (oldest_index (lru_timestamp st)) (lru_keys st)"
    using assms by (simp add: evictOldest_def Let_def)
  show "proxyCache (evictOldest st) =
           (proxyCache st)(lru_keys st ! oldest_index (lru_timestamp st) := None)"
    using assms b by (auto simp: evictOldest_def Let_def)
  show "lru_maxSize (evictOldest st) = lru_maxSize st"
    by (simp add: evictOldest_def Let_def)
qed

lemma evictOldest_indexed:
  assumes "cache_indexed st"
  shows "cache_indexed (evictOldest st)"
proof (cases "lru_keys st = []")
  case True then show ?thesis using assms by (simp add: evictOldest_def)
next
  case False
  have len: "length (lru_timestamp st) = length (lru_keys st)"
    using assms by (simp add: cache_indexed_def)
  have "lru_timestamp st \<noteq> []" using False len by (metis length_0_conv)
  then have b: "oldest_index (lru_timestamp st) < length (lru_keys st)"
    using len oldest_index_bound [of "lru_timestamp st"] by simp
  have "dom (proxyCache (evictOldest st)) \<subseteq> set (lru_keys (evictOldest st))"
    unfolding evictOldest_index(3,4) [OF False len]
    using assms b splice1_keeps [of "oldest_index (lru_timestamp st)" "lru_keys st"]
    by (auto simp: cache_indexed_def)
  then show ?thesis
    using evictOldest_index(2) [OF False len] by (simp add: cache_indexed_def)
qed

text \<open>
  An insertion keeps the index within \<open>maxSize\<close>, the limit the index holds.
\<close>

lemma lru_add_within_maxSize:
  assumes "length (lru_timestamp st) = length (lru_keys st)"
    and "length (lru_keys st) \<le> lru_maxSize st"
  shows "length (lru_keys (lru_add clock key st)) \<le> lru_maxSize st
         \<and> length (lru_timestamp (lru_add clock key st)) = length (lru_keys (lru_add clock key st))
         \<and> lru_maxSize (lru_add clock key st) = lru_maxSize st"
proof (cases "find_index (\<lambda>k. k = key) (lru_keys st)")
  case (Some i)
  then show ?thesis using assms by (simp add: lru_add_def Date_now_def)
next
  case None
  let ?st2 = "st\<lparr> ticks := Suc (ticks st), lru_keys := lru_keys st @ [key],
      lru_timestamp := lru_timestamp st @ [clock (ticks st)] \<rparr>"
  have ne: "lru_keys ?st2 \<noteq> []" and len: "length (lru_timestamp ?st2) = length (lru_keys ?st2)"
    using assms by simp_all
  show ?thesis
    using None assms evictOldest_index(1,2,5) [OF ne len]
    by (simp add: lru_add_def Date_now_def Let_def)
qed


lemma memoryPressure_check_frame:
  "config (snd (memoryPressure_check clock st)) = config st"
  "proxyCache (snd (memoryPressure_check clock st)) = proxyCache st"
  "lru_keys (snd (memoryPressure_check clock st)) = lru_keys st"
  "lru_timestamp (snd (memoryPressure_check clock st)) = lru_timestamp st"
  "lru_maxSize (snd (memoryPressure_check clock st)) = lru_maxSize st"
  "psets (snd (memoryPressure_check clock st)) = psets st"
  "extensible (snd (memoryPressure_check clock st)) = extensible st"
  "next_ref (snd (memoryPressure_check clock st)) = next_ref st"
  "ticks (snd (memoryPressure_check clock st)) = Suc (ticks st)"
  by (simp_all add: memoryPressure_check_def Date_now_def Let_def)

lemma policy_skips_root: "\<not> policy_skips u st path 0"
  by (simp add: policy_skips_def)

lemma lru_touch_frame:
  "proxyCache (lru_touch clock t st) = proxyCache st"
  "lru_keys (lru_touch clock t st) = lru_keys st"
  "config (lru_touch clock t st) = config st"
  by (simp_all add: lru_touch_def Date_now_def split: option.splits)

lemma lru_touch_refresh:
  assumes "find_index (\<lambda>k. k = t) (lru_keys st) = Some i"
    and "length (lru_timestamp st) = length (lru_keys st)"
  shows "lru_timestamp (lru_touch clock t st) ! i = clock (ticks st)"
  using assms find_index_Some [OF assms(1)]
  by (simp add: lru_touch_def Date_now_def)


lemma createAdvancedProxy_hit:
  assumes "px_enabled (config st)" and "proxyCache st t = Some w"
    and "\<not> policy_skips (fst (memoryPressure_check clock st)) (snd (memoryPressure_check clock st))
          path depth"
  shows "fst (createAdvancedProxy clock (Ref t) path depth st) = Ref w"
    and "proxyCache (snd (createAdvancedProxy clock (Ref t) path depth st)) = proxyCache st"
    and "lru_keys (snd (createAdvancedProxy clock (Ref t) path depth st)) = lru_keys st"
    and "cacheHits (snd (createAdvancedProxy clock (Ref t) path depth st)) = cacheHits st + 1"
    and "find_index (\<lambda>k. k = t) (lru_keys st) = Some i \<Longrightarrow>
         length (lru_timestamp st) = length (lru_keys st) \<Longrightarrow>
         lru_timestamp (snd (createAdvancedProxy clock (Ref t) path depth st)) ! i =
           clock (Suc (ticks st))"
proof -
  obtain u st1 where c: "memoryPressure_check clock st = (u, st1)"
    by (cases "memoryPressure_check clock st")
  have f: "proxyCache st1 = proxyCache st" "lru_keys st1 = lru_keys st"
    "lru_timestamp st1 = lru_timestamp st" "ticks st1 = Suc (ticks st)"
    using memoryPressure_check_frame(2,3,4,9) [of clock st] c by simp_all
  have h: "cacheHits st1 = cacheHits st"
    using c by (auto simp: memoryPressure_check_def Date_now_def Let_def split: if_splits)
  have r: "createAdvancedProxy clock (Ref t) path depth st =
      (Ref w, lru_touch clock t (st1\<lparr> cacheHits := cacheHits st1 + 1 \<rparr>))"
    using assms c f by (simp add: createAdvancedProxy_def)
  show "fst (createAdvancedProxy clock (Ref t) path depth st) = Ref w"
    by (simp add: r)
  show "proxyCache (snd (createAdvancedProxy clock (Ref t) path depth st)) = proxyCache st"
    by (simp add: r lru_touch_frame f)
  show "lru_keys (snd (createAdvancedProxy clock (Ref t) path depth st)) = lru_keys st"
    by (simp add: r lru_touch_frame f)
  show "cacheHits (snd (createAdvancedProxy clock (Ref t) path depth st)) = cacheHits st + 1"
    by (simp add: r h lru_touch_def Date_now_def split: option.splits)
  show "lru_timestamp (snd (createAdvancedProxy clock (Ref t) path depth st)) ! i =
           clock (Suc (ticks st))"
    if "find_index (\<lambda>k. k = t) (lru_keys st) = Some i"
      and "length (lru_timestamp st) = length (lru_keys st)"
    using that lru_touch_refresh [of t "st1\<lparr> cacheHits := cacheHits st1 + 1 \<rparr>" i clock]
    by (simp add: r f)
qed


text \<open>
  A miss on an extensible object, at the root and with room in the index: the
  new wrapper has the next unused identity and is cached under the object.
\<close>

lemma createAdvancedProxy_miss:
  assumes "px_enabled (config st)" and "proxyCache st t = None" and "extensible st t"
    and "length (lru_keys st) < lru_maxSize st"
  shows "fst (createAdvancedProxy clock (Ref t) path 0 st) = Ref (next_ref st)"
    and "proxyCache (snd (createAdvancedProxy clock (Ref t) path 0 st)) t = Some (next_ref st)"
    and "px_enabled (config (snd (createAdvancedProxy clock (Ref t) path 0 st)))"
proof -
  obtain u st1 where c: "memoryPressure_check clock st = (u, st1)"
    by (cases "memoryPressure_check clock st")
  have f: "proxyCache st1 = proxyCache st" "lru_keys st1 = lru_keys st"
    "lru_maxSize st1 = lru_maxSize st" "extensible st1 = extensible st"
    "next_ref st1 = next_ref st" "config st1 = config st"
    using memoryPressure_check_frame [of clock st] c by simp_all
  let ?st5 = "st1\<lparr> cacheMisses := cacheMisses st1 + 1,
      totalProxiesCreated := totalProxiesCreated st1 + 1,
      activeCachedProxies := activeCachedProxies st1 + 1,
      extensible := (extensible st1)(next_ref st1 := extensible st1 t),
      next_ref := Suc (next_ref st1),
      proxyCache := (proxyCache st1)(t \<mapsto> next_ref st1) \<rparr>"
  have r: "createAdvancedProxy clock (Ref t) path 0 st =
      (Ref (next_ref st1),
       (lru_add clock t ?st5)\<lparr> proxyPathMap := (proxyPathMap (lru_add clock t ?st5))(next_ref st1 \<mapsto> path) \<rparr>)"
    using assms c f
    by (simp add: createAdvancedProxy_def create_new_proxy_def policy_skips_root Let_def)
  have a: "proxyCache (lru_add clock t ?st5) = proxyCache ?st5 \<and>
      config (lru_add clock t ?st5) = config ?st5"
    using assms(4) f
    by (auto simp: lru_add_def Date_now_def Let_def split: option.splits)
  show "fst (createAdvancedProxy clock (Ref t) path 0 st) = Ref (next_ref st)"
    by (simp add: r f)
  show "proxyCache (snd (createAdvancedProxy clock (Ref t) path 0 st)) t = Some (next_ref st)"
    using a by (simp add: r f)
  show "px_enabled (config (snd (createAdvancedProxy clock (Ref t) path 0 st)))"
    using a assms(1) by (simp add: r f)
qed


lemma evictOldest_cache:
  "(proxyCache (evictOldest st) x = None \<or> proxyCache (evictOldest st) x = proxyCache st x) \<and>
   config (evictOldest st) = config st"
  by (simp add: evictOldest_def Let_def)

lemma lru_add_cache:
  "(proxyCache (lru_add clock key st) x = None \<or>
    proxyCache (lru_add clock key st) x = proxyCache st x) \<and>
   config (lru_add clock key st) = config st"
proof (cases "find_index (\<lambda>k. k = key) (lru_keys st)")
  case (Some i)
  then show ?thesis by (simp add: lru_add_def Date_now_def)
next
  case None
  obtain now st1 where d: "Date_now clock st = (now, st1)" by (cases "Date_now clock st")
  then have f: "proxyCache st1 = proxyCache st" "config st1 = config st"
    by (auto simp: Date_now_def)
  let ?s = "st1\<lparr> lru_keys := lru_keys st1 @ [key], lru_timestamp := lru_timestamp st1 @ [now] \<rparr>"
  have "lru_add clock key st = (if length (lru_keys ?s) > lru_maxSize ?s then evictOldest ?s else ?s)"
    using None d by (simp add: lru_add_def Let_def)
  then show ?thesis
    using evictOldest_cache [of ?s x] f by (cases "length (lru_keys ?s) > lru_maxSize ?s") simp_all
qed

lemma createAdvancedProxy_new:
  assumes "px_enabled (config st)" and "proxyCache st t = None" and "extensible st t"
  shows "fst (createAdvancedProxy clock (Ref t) path 0 st) = Ref (next_ref st)"
    and "proxyCache (snd (createAdvancedProxy clock (Ref t) path 0 st)) t = None \<or>
         proxyCache (snd (createAdvancedProxy clock (Ref t) path 0 st)) t = Some (next_ref st)"
    and "px_enabled (config (snd (createAdvancedProxy clock (Ref t) path 0 st)))"
proof -
  obtain u st1 where c: "memoryPressure_check clock st = (u, st1)"
    by (cases "memoryPressure_check clock st")
  have f: "proxyCache st1 = proxyCache st" "lru_keys st1 = lru_keys st"
    "lru_maxSize st1 = lru_maxSize st" "extensible st1 = extensible st"
    "next_ref st1 = next_ref st" "config st1 = config st"
    using memoryPressure_check_frame [of clock st] c by simp_all
  let ?st5 = "st1\<lparr> cacheMisses := cacheMisses st1 + 1,
      totalProxiesCreated := totalProxiesCreated st1 + 1,
      activeCachedProxies := activeCachedProxies st1 + 1,
      extensible := (extensible st1)(next_ref st1 := extensible st1 t),
      next_ref := Suc (next_ref st1),
      proxyCache := (proxyCache st1)(t \<mapsto> next_ref st1) \<rparr>"
  have r: "createAdvancedProxy clock (Ref t) path 0 st =
      (Ref (next_ref st1),
       (lru_add clock t ?st5)\<lparr> proxyPathMap := (proxyPathMap (lru_add clock t ?st5))(next_ref st1 \<mapsto> path) \<rparr>)"
    using assms c f
    by (simp add: createAdvancedProxy_def create_new_proxy_def policy_skips_root Let_def)
  note a = lru_add_cache [of clock t ?st5 t]
  show "fst (createAdvancedProxy clock (Ref t) path 0 st) = Ref (next_ref st)"
    by (simp add: r f)
  show "proxyCache (snd (createAdvancedProxy clock (Ref t) path 0 st)) t = None \<or>
         proxyCache (snd (createAdvancedProxy clock (Ref t) path 0 st)) t = Some (next_ref st)"
    using a by (simp add: r f)
  show "px_enabled (config (snd (createAdvancedProxy clock (Ref t) path 0 st)))"
    using a assms(1) by (simp add: r f)
qed

lemma createAdvancedProxy_not_object:
  "\<forall>t. target \<noteq> Ref t \<Longrightarrow> createAdvancedProxy clock target path depth st = (target, st)"
  by (cases target) (simp_all add: createAdvancedProxy_def)

lemma createAdvancedProxy_disabled:
  "\<not> px_enabled (config st) \<Longrightarrow> createAdvancedProxy clock target path depth st = (target, st)"
  by (cases target) (simp_all add: createAdvancedProxy_def)

text \<open>
  Claim C4, as the code has it. \<open>wrap(v, path, depth)\<close> returns \<open>v\<close> itself and
  changes nothing when \<open>v\<close> is not an object or array, or when wrapping is
  disabled. When a wrapper is cached for \<open>v\<close> and neither policy test that
  comes before the cache lookup applies (the shed under memory pressure and the
  ultra-selective skip, both only below the root), it returns that wrapper,
  leaves the cache as it is and sets the recency timestamp of \<open>v\<close> to the clock
  reading. An extensible object that is not cached yet, wrapped at the root,
  gets a new wrapper, and wrapping it at the root again returns the same
  wrapper unless the index evicted it in between.
\<close>

theorem createAdvancedProxy_identity:
  "((\<forall>t. target \<noteq> Ref t) \<or> \<not> px_enabled (config st) \<longrightarrow>
      createAdvancedProxy clock target path depth st = (target, st))
   \<and> (px_enabled (config st) \<and> proxyCache st t = Some w \<and> cache_indexed st \<and>
       \<not> policy_skips (fst (memoryPressure_check clock st)) (snd (memoryPressure_check clock st))
            path depth \<longrightarrow>
        fst (createAdvancedProxy clock (Ref t) path depth st) = Ref w \<and>
        proxyCache (snd (createAdvancedProxy clock (Ref t) path depth st)) = proxyCache st \<and>
        (\<exists>i. find_index (\<lambda>k. k = t) (lru_keys st) = Some i \<and>
             lru_timestamp (snd (createAdvancedProxy clock (Ref t) path depth st)) ! i =
               clock (Suc (ticks st))))
   \<and> (px_enabled (config st) \<and> proxyCache st t = None \<and> extensible st t \<and>
       proxyCache (snd (createAdvancedProxy clock (Ref t) path 0 st)) t \<noteq> None \<longrightarrow>
        fst (createAdvancedProxy clock (Ref t) path 0 st) = Ref (next_ref st) \<and>
        fst (createAdvancedProxy clock (Ref t) path' 0
               (snd (createAdvancedProxy clock (Ref t) path 0 st))) = Ref (next_ref st))"
proof -
  have one: "createAdvancedProxy clock target path depth st = (target, st)"
    if "(\<forall>t. target \<noteq> Ref t) \<or> \<not> px_enabled (config st)"
    using that createAdvancedProxy_not_object createAdvancedProxy_disabled by metis
  have two: "fst (createAdvancedProxy clock (Ref t) path depth st) = Ref w \<and>
        proxyCache (snd (createAdvancedProxy clock (Ref t) path depth st)) = proxyCache st \<and>
        (\<exists>i. find_index (\<lambda>k. k = t) (lru_keys st) = Some i \<and>
             lru_timestamp (snd (createAdvancedProxy clock (Ref t) path depth st)) ! i =
               clock (Suc (ticks st)))"
    if a: "px_enabled (config st) \<and> proxyCache st t = Some w \<and> cache_indexed st \<and>
       \<not> policy_skips (fst (memoryPressure_check clock st)) (snd (memoryPressure_check clock st))
            path depth"
  proof -
    have e: "px_enabled (config st)" and c: "proxyCache st t = Some w" and x: "cache_indexed st"
      and p: "\<not> policy_skips (fst (memoryPressure_check clock st))
                (snd (memoryPressure_check clock st)) path depth"
      using a by simp_all
    have "t \<in> dom (proxyCache st)" using c by (simp add: domI)
    then have "t \<in> set (lru_keys st)"
      using x unfolding cache_indexed_def by (rule_tac subsetD) simp_all
    then obtain i where i: "find_index (\<lambda>k. k = t) (lru_keys st) = Some i"
      using find_index_mem by metis
    have len: "length (lru_timestamp st) = length (lru_keys st)"
      using x by (simp add: cache_indexed_def)
    note h = createAdvancedProxy_hit [OF e c p]
    show ?thesis
      using h(1) h(2) h(5) [OF i len] i by (intro conjI exI [of _ i]) simp_all
  qed
  have three: "fst (createAdvancedProxy clock (Ref t) path 0 st) = Ref (next_ref st) \<and>
        fst (createAdvancedProxy clock (Ref t) path' 0
               (snd (createAdvancedProxy clock (Ref t) path 0 st))) = Ref (next_ref st)"
    if a: "px_enabled (config st) \<and> proxyCache st t = None \<and> extensible st t \<and>
       proxyCache (snd (createAdvancedProxy clock (Ref t) path 0 st)) t \<noteq> None"
  proof -
    have e: "px_enabled (config st)" and c: "proxyCache st t = None" and x: "extensible st t"
      and r: "proxyCache (snd (createAdvancedProxy clock (Ref t) path 0 st)) t \<noteq> None"
      using a by simp_all
    note m = createAdvancedProxy_new [OF e c x, of clock path]
    have k: "proxyCache (snd (createAdvancedProxy clock (Ref t) path 0 st)) t = Some (next_ref st)"
      using m(2) r by blast
    have "fst (createAdvancedProxy clock (Ref t) path' 0
               (snd (createAdvancedProxy clock (Ref t) path 0 st))) = Ref (next_ref st)"
      by (rule createAdvancedProxy_hit(1) [OF m(3) k policy_skips_root])
    then show ?thesis using m(1) by (intro conjI)
  qed
  show ?thesis
  proof (rule conjI [OF _ conjI])
    show "(\<forall>t. target \<noteq> Ref t) \<or> \<not> px_enabled (config st) \<longrightarrow>
      createAdvancedProxy clock target path depth st = (target, st)"
      by (rule impI) (rule one)
    show "px_enabled (config st) \<and> proxyCache st t = Some w \<and> cache_indexed st \<and>
       \<not> policy_skips (fst (memoryPressure_check clock st)) (snd (memoryPressure_check clock st))
            path depth \<longrightarrow>
        fst (createAdvancedProxy clock (Ref t) path depth st) = Ref w \<and>
        proxyCache (snd (createAdvancedProxy clock (Ref t) path depth st)) = proxyCache st \<and>
        (\<exists>i. find_index (\<lambda>k. k = t) (lru_keys st) = Some i \<and>
             lru_timestamp (snd (createAdvancedProxy clock (Ref t) path depth st)) ! i =
               clock (Suc (ticks st)))"
      by (rule impI) (rule two)
    show "px_enabled (config st) \<and> proxyCache st t = None \<and> extensible st t \<and>
       proxyCache (snd (createAdvancedProxy clock (Ref t) path 0 st)) t \<noteq> None \<longrightarrow>
        fst (createAdvancedProxy clock (Ref t) path 0 st) = Ref (next_ref st) \<and>
        fst (createAdvancedProxy clock (Ref t) path' 0
               (snd (createAdvancedProxy clock (Ref t) path 0 st))) = Ref (next_ref st)"
      by (rule impI) (rule three)
  qed
qed


lemma lru_add_indexed:
  assumes "dom (proxyCache st) \<subseteq> insert key (set (lru_keys st))"
    and "length (lru_timestamp st) = length (lru_keys st)"
  shows "cache_indexed (lru_add clock key st)"
proof (cases "find_index (\<lambda>k. k = key) (lru_keys st)")
  case (Some i)
  then have "key \<in> set (lru_keys st)"
    using find_index_Some [OF Some] by (metis nth_mem)
  then show ?thesis
    using Some assms by (auto simp: lru_add_def Date_now_def cache_indexed_def)
next
  case None
  let ?st2 = "st\<lparr> ticks := Suc (ticks st), lru_keys := lru_keys st @ [key],
      lru_timestamp := lru_timestamp st @ [clock (ticks st)] \<rparr>"
  have "cache_indexed ?st2" using assms by (auto simp: cache_indexed_def)
  then show ?thesis
    using None evictOldest_indexed [of ?st2]
    by (simp add: lru_add_def Date_now_def Let_def)
qed

lemma proxy_loaded_indexed: "cache_indexed (proxy_loaded frozen n)"
  by (simp add: cache_indexed_def proxy_loaded_def)

lemma configure_proxy_indexed: "cache_indexed st \<Longrightarrow> cache_indexed (configure_proxy given st)"
  by (simp add: cache_indexed_def configure_proxy_def)

lemma cache_indexed_frame:
  "cache_indexed (st\<lparr> proxyPathMap := m \<rparr>) = cache_indexed st"
  "cache_indexed (st\<lparr> cacheHits := h \<rparr>) = cache_indexed st"
  "cache_indexed (st\<lparr> cacheMisses := c \<rparr>) = cache_indexed st"
  "cache_indexed (st\<lparr> totalProxiesCreated := p \<rparr>) = cache_indexed st"
  "cache_indexed (st\<lparr> activeCachedProxies := a \<rparr>) = cache_indexed st"
  "cache_indexed (st\<lparr> extensible := e \<rparr>) = cache_indexed st"
  "cache_indexed (st\<lparr> next_ref := n \<rparr>) = cache_indexed st"
  "cache_indexed (st\<lparr> ticks := k \<rparr>) = cache_indexed st"
  by (simp_all add: cache_indexed_def)

lemma lru_add_cached_indexed:
  assumes "cache_indexed st"
  shows "cache_indexed (lru_add clock k (st\<lparr> proxyCache := (proxyCache st)(k \<mapsto> p) \<rparr>))"
  using assms by (intro lru_add_indexed) (auto simp: cache_indexed_def)

lemma create_new_proxy_indexed:
  assumes "cache_indexed st"
  shows "cache_indexed (snd (create_new_proxy clock t path st))"
proof (cases "extensible st t")
  case True
  let ?s = "st\<lparr> cacheMisses := cacheMisses st + 1,
      totalProxiesCreated := totalProxiesCreated st + 1,
      activeCachedProxies := activeCachedProxies st + 1,
      extensible := (extensible st)(next_ref st := extensible st t),
      next_ref := Suc (next_ref st) \<rparr>"
  have "cache_indexed ?s" using assms by (simp add: cache_indexed_frame)
  from lru_add_cached_indexed [OF this, of clock t "next_ref st"]
  show ?thesis using True
    by (simp add: create_new_proxy_def Let_def cache_indexed_frame)
next
  case False
  let ?s = "st\<lparr> cacheMisses := cacheMisses st + 1,
      totalProxiesCreated := totalProxiesCreated st + 1,
      activeCachedProxies := activeCachedProxies st + 1,
      extensible := (extensible st)(next_ref st := True, Suc (next_ref st) := True),
      next_ref := Suc (Suc (next_ref st)) \<rparr>"
  have "cache_indexed ?s" using assms by (simp add: cache_indexed_frame)
  from lru_add_cached_indexed [OF this, of clock "next_ref st" "Suc (next_ref st)"]
  show ?thesis using False
    by (simp add: create_new_proxy_def Let_def cache_indexed_frame)
qed

lemma lru_touch_indexed: "cache_indexed st \<Longrightarrow> cache_indexed (lru_touch clock t st)"
  by (auto simp: lru_touch_def Date_now_def cache_indexed_def split: option.splits)

lemma memoryPressure_check_indexed:
  "cache_indexed st \<Longrightarrow> cache_indexed (snd (memoryPressure_check clock st))"
  by (simp add: cache_indexed_def memoryPressure_check_frame)

text \<open>Wrapping keeps every cached target in the recency index.\<close>

lemma createAdvancedProxy_indexed:
  assumes "cache_indexed st"
  shows "cache_indexed (snd (createAdvancedProxy clock target path depth st))"
proof (cases "(\<forall>t. target \<noteq> Ref t) \<or> \<not> px_enabled (config st)")
  case True
  then have "createAdvancedProxy clock target path depth st = (target, st)"
    using createAdvancedProxy_not_object createAdvancedProxy_disabled by metis
  then show ?thesis using assms by simp
next
  case False
  then obtain t where t: "target = Ref t" and e: "px_enabled (config st)" by blast
  obtain u st1 where c: "memoryPressure_check clock st = (u, st1)"
    by (cases "memoryPressure_check clock st")
  have i1: "cache_indexed st1"
    using memoryPressure_check_indexed [OF assms, of clock] c by simp
  have "snd (createAdvancedProxy clock target path depth st) = st1 \<or>
        snd (createAdvancedProxy clock target path depth st) =
          lru_touch clock t (st1\<lparr> cacheHits := cacheHits st1 + 1 \<rparr>) \<or>
        snd (createAdvancedProxy clock target path depth st) =
          snd (create_new_proxy clock t path st1)"
    using t e c by (simp add: createAdvancedProxy_def split: option.splits)
  then show ?thesis
    using i1 lru_touch_indexed [of "st1\<lparr> cacheHits := cacheHits st1 + 1 \<rparr>" clock t]
      create_new_proxy_indexed [OF i1, of clock t path]
    by (auto simp: cache_indexed_frame)
qed


lemmas proxy_run_defs =
  createAdvancedProxy_def create_new_proxy_def memoryPressure_check_def Date_now_def
  estimateMemoryUsage_def policy_skips_def isHighPriorityPath_def lru_add_def lru_touch_def
  evictOldest_def oldest_index_def splice1_def configure_proxy_def proxy_loaded_def
  defaultProxyConfig_def no_paths_def ms_clock_def Let_def

lemma one_wrapped_state:
  "proxyCache one_wrapped = [0 \<mapsto> 1]" "lru_keys one_wrapped = [0]"
  "lru_timestamp one_wrapped = [1001]" "px_enabled (config one_wrapped)"
  "ticks one_wrapped = 2"
  by (simp_all add: one_wrapped_def proxy_run_defs)

text \<open>
  Claim C7 at its failing input. The recency index takes its limit from the
  configuration object when the module is loaded (5000, the default);
  \<open>configure\<close> changes the configuration object afterwards and not the index.
  Configured with a cache size of 2, the index holds three entries after three
  distinct objects have been wrapped. (Against its own \<open>maxSize\<close> the index is
  bounded: \<open>lru_add_within_maxSize\<close>, and it evicts an entry with the smallest
  timestamp: \<open>oldest_index_min\<close>.)
\<close>

theorem configured_cache_size_not_applied:
  "maxProxyCacheSize (config three_wrapped) = 2
   \<and> lru_maxSize three_wrapped = 5000
   \<and> lru_keys three_wrapped = [0, 1, 2]
   \<and> length (lru_keys three_wrapped) = 3"
  by (simp add: three_wrapped_def configured_small_def proxy_run_defs)


theorem createAdvancedProxy_identity_witness:
  "createAdvancedProxy ms_clock (Num 5) [''n''] 1 one_wrapped = (Num 5, one_wrapped)
   \<and> proxyCache one_wrapped 0 = Some 1
   \<and> fst (createAdvancedProxy ms_clock (Ref 0) [''a''] 0 one_wrapped) = Ref 1
   \<and> lru_timestamp one_wrapped = [1001]
   \<and> lru_timestamp (snd (createAdvancedProxy ms_clock (Ref 0) [''a''] 0 one_wrapped)) ! 0 = 1003
   \<and> fst (createAdvancedProxy ms_clock (Ref 0) [''a''] 0 (proxy_loaded (\<lambda>r. False) 1)) = Ref 1
   \<and> fst (createAdvancedProxy ms_clock (Ref 0) [''b''] 0
        (snd (createAdvancedProxy ms_clock (Ref 0) [''a''] 0 (proxy_loaded (\<lambda>r. False) 1)))) = Ref 1"
proof -
  have i: "cache_indexed one_wrapped"
    unfolding one_wrapped_def by (intro createAdvancedProxy_indexed proxy_loaded_indexed)
  have n: "(\<forall>t. Num 5 \<noteq> Ref t) \<or> \<not> px_enabled (config one_wrapped)" by simp
  have h: "px_enabled (config one_wrapped) \<and> proxyCache one_wrapped 0 = Some 1 \<and>
      cache_indexed one_wrapped \<and>
      \<not> policy_skips (fst (memoryPressure_check ms_clock one_wrapped))
           (snd (memoryPressure_check ms_clock one_wrapped)) [''a''] 0"
    using i by (simp add: one_wrapped_state policy_skips_root)
  have l: "px_enabled (config (proxy_loaded (\<lambda>r. False) 1)) \<and>
      proxyCache (proxy_loaded (\<lambda>r. False) 1) 0 = None \<and>
      extensible (proxy_loaded (\<lambda>r. False) 1) 0 \<and>
      proxyCache (snd (createAdvancedProxy ms_clock (Ref 0) [''a''] 0
        (proxy_loaded (\<lambda>r. False) 1))) 0 \<noteq> None"
    using one_wrapped_state(1) by (simp add: one_wrapped_def proxy_loaded_def defaultProxyConfig_def)
  have nr: "next_ref (proxy_loaded (\<lambda>r. False) 1) = 1" by (simp add: proxy_loaded_def)
  note w1 = createAdvancedProxy_identity [where target = "Num 5" and st = one_wrapped
      and clock = ms_clock and path = "[''n'']" and depth = 1, THEN conjunct1, THEN mp, OF n]
  note w2 = createAdvancedProxy_identity [where st = one_wrapped and clock = ms_clock
      and path = "[''a'']" and depth = 0 and t = 0 and w = 1,
      THEN conjunct2, THEN conjunct1, THEN mp, OF h]
  note w3 = createAdvancedProxy_identity [where st = "proxy_loaded (\<lambda>r. False) 1"
      and clock = ms_clock and path = "[''a'']" and path' = "[''b'']" and t = 0,
      THEN conjunct2, THEN conjunct2, THEN mp, OF l]
  have ts: "lru_timestamp (snd (createAdvancedProxy ms_clock (Ref 0) [''a''] 0 one_wrapped)) ! 0 = 1003"
    using w2 by (auto simp: one_wrapped_state ms_clock_def)
  show ?thesis
    using w1 w2 w3 ts nr by (simp add: one_wrapped_state)
qed

text \<open>
  Claim C4 as stated fails when a policy test comes first: with ultra-selective
  wrapping on, an object that has a cached wrapper is returned unwrapped when it
  is wrapped again below the root at a path no selector has read. It also fails
  for an object that is not extensible: the cache is keyed by the copy, so
  wrapping the same object again makes another wrapper.
\<close>

theorem createAdvancedProxy_identity_counterexample:
  "proxyCache selective_wrapped 0 = Some 1
   \<and> fst (createAdvancedProxy ms_clock (Ref 0) [''a''] 1 selective_wrapped) = Ref 0
   \<and> fst (createAdvancedProxy ms_clock (Ref 0) [''a''] 0 (proxy_loaded (\<lambda>r. r = 0) 1)) = Ref 2
   \<and> fst (createAdvancedProxy ms_clock (Ref 0) [''a''] 0
        (snd (createAdvancedProxy ms_clock (Ref 0) [''a''] 0 (proxy_loaded (\<lambda>r. r = 0) 1)))) = Ref 4"
  by (simp add: selective_wrapped_def proxy_run_defs)

section \<open>Hydration: proofs\<close>


lemma lookup_empty: "js \<noteq> [] \<Longrightarrow> lookup_path js (JObj a []) = None"
  by (cases js) simp_all

lemma lookup_not_object:
  "js \<noteq> [] \<Longrightarrow> \<forall>a cs. c \<noteq> JObj a cs \<Longrightarrow> lookup_path js c = None"
  by (cases js; cases c) auto








text \<open>
  Whether the assignment along a path throws does not depend on the value, and
  is not changed by an assignment along a path that branches off.
\<close>

lemma assign_props_value_free:
  "(assign_props segs v ps = None) = (assign_props segs w ps = None)"
  by (induction segs v ps rule: assign_props.induct)
    (auto split: json.splits option.splits)




section \<open>Paths as strings and as segments\<close>
















































section \<open>The batch flush: proofs\<close>















end
